theory Spec2Isabelle
  imports Complex_Main
begin

section \<open>Data model of the SIPP planner (SIPP.cpp)\<close>

text \<open>
  An \<open>Interval\<close> is the tuple \<open>(low, high, num_collisions)\<close> that the reservation table hands
  out: the half-open time range \<open>[low, high)\<close> and the number of soft collisions in it. The
  three projections stand for \<open>get<0>\<close>, \<open>get<1>\<close> and \<open>get<2>\<close>. C++ \<open>int\<close> values are
  modelled as unbounded integers: signed overflow is undefined in C++ and no operation below
  relies on wrap-around.
\<close>

type_synonym Interval = "int \<times> int \<times> int"

definition get_0 :: "Interval \<Rightarrow> int" where
  "get_0 iv = fst iv"

definition get_1 :: "Interval \<Rightarrow> int" where
  "get_1 iv = fst (snd iv)"

definition get_2 :: "Interval \<Rightarrow> int" where
  "get_2 iv = snd (snd iv)"

text \<open>
  A path is the vector of the cells occupied at the time steps \<open>0..T\<close> (each \<open>PathEntry\<close>
  carries its \<open>location\<close>).
\<close>

type_synonym Path = "int list"

text \<open>
  A search node. Nodes live on the heap and refer to their parent by pointer; here the
  address of a node is its index in the node arena and \<open>parent = None\<close> is the null pointer.
  The two heap handles of the C++ class are not modelled as fields: a heap below is the list
  of the addresses it holds, so the handle of a node is its address.
\<close>

record SIPPNode =
  location :: int
  g_val :: int
  h_val :: int
  parent :: "nat option"
  timestep :: int
  num_of_conflicts :: int
  in_openlist :: bool
  wait_at_goal :: bool
  is_goal :: bool
  interval :: Interval

text \<open>
  Modelled from the spec: the constructor \<open>SIPPNode(loc, g, h, parent, timestep, interval,
  num_of_conflicts)\<close> is declared in SIPP.h, which is not part of the sources. The flags of
  a fresh node are all false.
\<close>

definition new_SIPPNode ::
  "int \<Rightarrow> int \<Rightarrow> int \<Rightarrow> nat option \<Rightarrow> int \<Rightarrow> Interval \<Rightarrow> int \<Rightarrow> SIPPNode" where
  "new_SIPPNode loc g h par t iv c =
     \<lparr>location = loc, g_val = g, h_val = h, parent = par, timestep = t,
      num_of_conflicts = c, in_openlist = False, wait_at_goal = False, is_goal = False,
      interval = iv\<rparr>"

definition getFVal :: "SIPPNode \<Rightarrow> int" where
  "getFVal n = g_val n + h_val n"

text \<open>
  Modelled from the spec: \<open>SIPPNode::copy\<close> is declared in SIPP.h (missing). The spec speaks
  of replacing the existing node by the new one; the membership flag \<open>in_openlist\<close> (and the
  heap handles) stay with the existing node, since the callers test the flag after the copy.
\<close>

definition copy :: "SIPPNode \<Rightarrow> SIPPNode \<Rightarrow> SIPPNode" where
  "copy this other =
     this\<lparr>location := location other, g_val := g_val other, h_val := h_val other,
          parent := parent other, timestep := timestep other,
          num_of_conflicts := num_of_conflicts other, wait_at_goal := wait_at_goal other,
          is_goal := is_goal other, interval := interval other\<rparr>"

text \<open>
  Modelled from the spec: the equality of the node hash table (\<open>SIPPNode::eqnode\<close> in SIPP.h,
  missing) identifies nodes by \<open>(cell, interval_low, is_goal)\<close>.
\<close>

definition eqnode :: "SIPPNode \<Rightarrow> SIPPNode \<Rightarrow> bool" where
  "eqnode n1 n2 \<longleftrightarrow>
     location n1 = location n2 \<and> get_0 (interval n1) = get_0 (interval n2) \<and>
     is_goal n1 = is_goal n2"

text \<open>
  Modelled from the spec: the heap orders (\<open>compare_node\<close> and \<open>secondary_compare_node\<close> in
  the missing headers). FOCAL is ordered by \<open>(conflicts, f, h)\<close>, OPEN by \<open>(f, h)\<close>;
  \<open>focal_after a b\<close> says that \<open>a\<close> comes strictly after \<open>b\<close>.
\<close>

definition focal_after :: "SIPPNode \<Rightarrow> SIPPNode \<Rightarrow> bool" where
  "focal_after a b \<longleftrightarrow>
     num_of_conflicts a > num_of_conflicts b \<or>
     (num_of_conflicts a = num_of_conflicts b \<and>
       (getFVal a > getFVal b \<or> (getFVal a = getFVal b \<and> h_val a > h_val b)))"

definition open_after :: "SIPPNode \<Rightarrow> SIPPNode \<Rightarrow> bool" where
  "open_after a b \<longleftrightarrow>
     getFVal a > getFVal b \<or> (getFVal a = getFVal b \<and> h_val a > h_val b)"

text \<open>
  Modelled from the spec: \<open>top()\<close> of a heap. A heap is the list of the addresses pushed
  into it, in insertion order; the top is a least element of the order, and among equal
  ones the one inserted first (the spec's ultimate tie-break). Keys are read from the arena
  when the top is taken, so \<open>update\<close> and \<open>increase\<close> of a handle need no action.
  \<open>top()\<close> of an empty heap is undefined in C++; every caller below tests for it.
\<close>

fun heap_top :: "(SIPPNode \<Rightarrow> SIPPNode \<Rightarrow> bool) \<Rightarrow> SIPPNode list \<Rightarrow> nat list \<Rightarrow> nat" where
  "heap_top after ns [] = 0"
| "heap_top after ns [a] = a"
| "heap_top after ns (a # b # bs) =
     (let m = heap_top after ns (b # bs) in if after (ns ! a) (ns ! m) then m else a)"

text \<open>
  The tables a search consults, fixed during one call: the agent's start, goal and heuristic
  table, the instance's neighbourhood, and the queries of the constraint table and the
  reservation table built over it. Their code is not part of the sources, so they are
  parameters. \<open>find_safe_interval\<close> has an in/out argument: it returns the flag and the
  interval variable after the call. The last field is the arithmetic of the machine that
  mode B relies on: \<open>times_double w m\<close> is the product \<open>w * m\<close> of a \<open>double\<close> and an \<open>int\<close>
  converted to \<open>double\<close>, rounded as the machine rounds it. Nothing is assumed about the
  rounding.
\<close>

record Env =
  start_location :: int
  goal_location :: int
  my_heuristic :: "int \<Rightarrow> int"
  getNeighbors :: "int \<Rightarrow> int list"
  get_first_safe_interval :: "int \<Rightarrow> Interval"
  get_safe_intervals :: "int \<Rightarrow> int \<Rightarrow> int \<Rightarrow> int \<Rightarrow> Interval list"
  find_safe_interval :: "Interval \<Rightarrow> int \<Rightarrow> int \<Rightarrow> bool \<times> Interval"
  getHoldingTime :: "int \<Rightarrow> int \<Rightarrow> int"
  getFutureNumOfCollisions :: "int \<Rightarrow> int \<Rightarrow> int"
  length_min :: int
  length_max :: int
  times_double :: "real \<Rightarrow> int \<Rightarrow> real"

text \<open>
  The mutable members of the \<open>SIPP\<close> object. \<open>allNodes_table\<close> is the node arena: every node
  that is kept is inserted into the hash table, so the table is the list of the live nodes
  and the address of a node is its position. Temporary nodes that the code deletes again are
  values and never enter the arena.
\<close>

record SIPP =
  allNodes_table :: "SIPPNode list"
  open_list :: "nat list"
  focal_list :: "nat list"
  min_f_val :: int
  suboptimality :: real
  num_expanded :: nat
  num_generated :: nat

datatype error = AssertionFailed | UndefinedBehaviour

text \<open>\<open>allNodes_table.find\<close>: the address of the node equal to the probe, if there is one.\<close>

fun allNodes_find :: "SIPPNode list \<Rightarrow> SIPPNode \<Rightarrow> nat option" where
  "allNodes_find [] n = None"
| "allNodes_find (x # xs) n =
     (if eqnode x n then Some 0 else map_option Suc (allNodes_find xs n))"

section \<open>Path reconstruction\<close>

text \<open>
  The inner loop of \<open>updatePath\<close>: \<open>while (t < curr->timestep) { path[t] = prev->location; t++; }\<close>.
  A write outside the vector is undefined behaviour.
\<close>

function fill_waits :: "int \<Rightarrow> int \<Rightarrow> int \<Rightarrow> Path \<Rightarrow> error + Path" where
  "fill_waits t tend loc path =
     (if t < tend
      then (if 0 \<le> t \<and> nat t < length path
            then fill_waits (t + 1) tend loc (path[nat t := loc])
            else Inl UndefinedBehaviour)
      else Inr path)"
  by pat_completeness auto
termination
  by (relation "measure (\<lambda>(t, tend, loc, path). nat (tend - t))") auto

declare fill_waits.simps [simp del]

text \<open>
  The outer loop of \<open>updatePath\<close>, walking the parent pointers in the arena \<open>ns\<close>. A walk that
  never reaches a root does not return (\<open>None\<close>).
\<close>

partial_function (option) updatePath_walk ::
  "SIPPNode list \<Rightarrow> nat \<Rightarrow> Path \<Rightarrow> (error + Path) option" where
  "updatePath_walk ns cur path =
     (case parent (ns ! cur) of
        None \<Rightarrow>
          Some (if timestep (ns ! cur) = 0
                then (if path = [] then Inl UndefinedBehaviour
                      else Inr (path[0 := location (ns ! cur)]))
                else Inl AssertionFailed)
      | Some prev \<Rightarrow>
          (case fill_waits (timestep (ns ! prev) + 1) (timestep (ns ! cur))
                  (location (ns ! prev)) path of
             Inl e \<Rightarrow> Some (Inl e)
           | Inr path' \<Rightarrow>
               (if 0 \<le> timestep (ns ! cur) \<and> nat (timestep (ns ! cur)) < length path'
                then updatePath_walk ns prev
                       (path'[nat (timestep (ns ! cur)) := location (ns ! cur)])
                else Some (Inl UndefinedBehaviour))))"

declare updatePath_walk.simps [code]

text \<open>
  \<open>updatePath(goal, path)\<close> on the empty path of the callers: \<open>resize\<close> to
  \<open>goal->timestep + 1\<close> default entries (location \<open>-1\<close>), then the walk. A negative size
  cannot be allocated.
\<close>

definition updatePath :: "SIPPNode list \<Rightarrow> nat \<Rightarrow> (error + Path) option" where
  "updatePath ns goal =
     (if timestep (ns ! goal) + 1 < 0 then Some (Inl UndefinedBehaviour)
      else updatePath_walk ns goal (replicate (nat (timestep (ns ! goal) + 1)) (- 1)))"

section \<open>Mode A: the minimum-collision search (findPath)\<close>

text \<open>
  \<open>generateChildToFocal(interval, curr, next_location, next_h_val)\<close>. \<open>curr\<close> is the address
  of the node being expanded. The first definition is the temporary node \<open>next\<close> that the
  function builds; the second looks it up: a new node is inserted into the table and pushed
  into FOCAL, a node that is already in the table is overwritten when the new one is better.
\<close>

definition generateChildToFocal_next ::
  "Env \<Rightarrow> Interval \<Rightarrow> nat \<Rightarrow> int \<Rightarrow> int \<Rightarrow> SIPP \<Rightarrow> SIPPNode" where
  "generateChildToFocal_next env iv cur next_location next_h_val0 s =
     (let c = allNodes_table s ! cur;
          next_timestep = max (timestep c + 1) (get_0 iv);
          next_h_val = max next_h_val0 (getFVal c - next_timestep);
          next = new_SIPPNode next_location next_timestep next_h_val (Some cur) next_timestep iv
                   (num_of_conflicts c + get_2 iv)
      in if next_location = goal_location env \<and> location c = goal_location env
         then next\<lparr>wait_at_goal := True\<rparr> else next)"

definition generateChildToFocal :: "Env \<Rightarrow> Interval \<Rightarrow> nat \<Rightarrow> int \<Rightarrow> int \<Rightarrow> SIPP \<Rightarrow> SIPP" where
  "generateChildToFocal env iv cur next_location next_h_val0 s =
     (let next = generateChildToFocal_next env iv cur next_location next_h_val0 s
      in case allNodes_find (allNodes_table s) next of
           None \<Rightarrow>
             s\<lparr>focal_list := focal_list s @ [length (allNodes_table s)],
               num_generated := num_generated s + 1,
               allNodes_table := allNodes_table s @ [next\<lparr>in_openlist := True\<rparr>]\<rparr>
         | Some e \<Rightarrow>
             (let existing_next = allNodes_table s ! e
              in if timestep existing_next > timestep next \<or>
                    (timestep existing_next = timestep next \<and>
                     num_of_conflicts existing_next > num_of_conflicts next)
                 then (if \<not> in_openlist existing_next
                       then s\<lparr>allNodes_table :=
                                (allNodes_table s)[e := (copy existing_next next)\<lparr>in_openlist := True\<rparr>],
                              focal_list := focal_list s @ [e]\<rparr>
                       else s\<lparr>allNodes_table := (allNodes_table s)[e := copy existing_next next]\<rparr>)
                 else s))"

text \<open>
  The virtual goal node of \<open>findPath\<close> (the block after \<open>// generate a goal node\<close>): a copy
  of the popped node with \<open>is_goal\<close> set, the popped node as parent and the future collisions
  added. The assertion that an existing goal node is still open is a failure when it does
  not hold.
\<close>

definition findPath_goal_node :: "nat \<Rightarrow> int \<Rightarrow> SIPP \<Rightarrow> error + SIPP" where
  "findPath_goal_node cur future_collisions s =
     (let c = allNodes_table s ! cur;
          goal = c\<lparr>is_goal := True, parent := Some cur,
                   num_of_conflicts := num_of_conflicts c + future_collisions\<rparr>
      in case allNodes_find (allNodes_table s) goal of
           None \<Rightarrow>
             Inr (s\<lparr>focal_list := focal_list s @ [length (allNodes_table s)],
                    num_generated := num_generated s + 1,
                    allNodes_table := allNodes_table s @ [goal\<lparr>in_openlist := True\<rparr>]\<rparr>)
         | Some e \<Rightarrow>
             (let existing_next = allNodes_table s ! e
              in if timestep existing_next > timestep goal \<or>
                    (timestep existing_next = timestep goal \<and>
                     num_of_conflicts existing_next > num_of_conflicts goal)
                 then (if in_openlist existing_next
                       then Inr (s\<lparr>allNodes_table := (allNodes_table s)[e := copy existing_next goal]\<rparr>)
                       else Inl AssertionFailed)
                 else Inr s))"

text \<open>
  The successor loops of \<open>findPath\<close>. The inner loop runs over the safe intervals of one
  neighbour and stops (\<open>break\<close>) at the first interval whose arrival time plus the plain
  heuristic exceeds \<open>length_max\<close>; the outer loop runs over the neighbours.
\<close>

fun findPath_intervals :: "Env \<Rightarrow> nat \<Rightarrow> int \<Rightarrow> int \<Rightarrow> Interval list \<Rightarrow> SIPP \<Rightarrow> SIPP" where
  "findPath_intervals env cur next_location next_h_val [] s = s"
| "findPath_intervals env cur next_location next_h_val (iv # ivs) s =
     (let next_timestep = max (timestep (allNodes_table s ! cur) + 1) (get_0 iv)
      in if next_timestep + next_h_val > length_max env then s
         else findPath_intervals env cur next_location next_h_val ivs
                (generateChildToFocal env iv cur next_location next_h_val s))"

fun findPath_neighbors :: "Env \<Rightarrow> nat \<Rightarrow> int list \<Rightarrow> SIPP \<Rightarrow> SIPP" where
  "findPath_neighbors env cur [] s = s"
| "findPath_neighbors env cur (next_location # rest) s =
     (let c = allNodes_table s ! cur;
          next_h_val = my_heuristic env next_location
      in findPath_neighbors env cur rest
           (findPath_intervals env cur next_location next_h_val
              (get_safe_intervals env (location c) next_location (timestep c + 1)
                 (get_1 (interval c) + 1)) s))"

text \<open>
  The wait successor: \<open>find_safe_interval\<close> overwrites the function's \<open>interval\<close> variable,
  which is therefore part of the loop state.
\<close>

definition findPath_wait :: "Env \<Rightarrow> nat \<Rightarrow> Interval \<Rightarrow> SIPP \<Rightarrow> Interval \<times> SIPP" where
  "findPath_wait env cur iv s =
     (let c = allNodes_table s ! cur;
          (found, iv') = find_safe_interval env iv (location c) (get_1 (interval c))
      in if found then (iv', generateChildToFocal env iv' cur (location c) (h_val c) s)
         else (iv', s))"

definition findPath_expand :: "Env \<Rightarrow> nat \<Rightarrow> Interval \<Rightarrow> SIPP \<Rightarrow> Interval \<times> SIPP" where
  "findPath_expand env cur iv s =
     findPath_wait env cur iv
       (findPath_neighbors env cur (getNeighbors env (location (allNodes_table s ! cur))) s)"

text \<open>
  One round of the \<open>while (!focal_list.empty())\<close> loop of \<open>findPath\<close>, for a non-empty FOCAL:
  either the loop is left with a path (\<open>Break\<close>) or it goes on with the new state.
\<close>

datatype control = Break Path SIPP | Continue Interval SIPP

definition pop_focal :: "SIPP \<Rightarrow> nat \<times> SIPP" where
  "pop_focal s =
     (let cur = heap_top focal_after (allNodes_table s) (focal_list s)
      in (cur, s\<lparr>focal_list := remove1 cur (focal_list s),
                 allNodes_table :=
                   (allNodes_table s)[cur := (allNodes_table s ! cur)\<lparr>in_openlist := False\<rparr>],
                 num_expanded := num_expanded s + 1\<rparr>))"

definition break_with :: "SIPPNode list \<Rightarrow> nat \<Rightarrow> SIPP \<Rightarrow> (error + control) option" where
  "break_with ns goal s =
     (case updatePath ns goal of
        None \<Rightarrow> None
      | Some (Inl e) \<Rightarrow> Some (Inl e)
      | Some (Inr path) \<Rightarrow> Some (Inr (Break path s)))"

definition findPath_iteration ::
  "Env \<Rightarrow> int \<Rightarrow> Interval \<Rightarrow> SIPP \<Rightarrow> (error + control) option" where
  "findPath_iteration env holding_time iv s0 =
     (let (cur, s) = pop_focal s0;
          c = allNodes_table s ! cur
      in if location c < 0 then Some (Inl AssertionFailed)
         else if is_goal c
         then (case parent c of
                 None \<Rightarrow> Some (Inl UndefinedBehaviour)
               | Some p \<Rightarrow> break_with (allNodes_table s) p s)
         else if location c = goal_location env \<and> \<not> wait_at_goal c \<and> timestep c \<ge> holding_time
         then (let future_collisions = getFutureNumOfCollisions env (location c) (timestep c)
               in if future_collisions = 0 then break_with (allNodes_table s) cur s
                  else (case findPath_goal_node cur future_collisions s of
                          Inl e \<Rightarrow> Some (Inl e)
                        | Inr s' \<Rightarrow>
                            Some (Inr (case findPath_expand env cur iv s' of
                                         (iv', s'') \<Rightarrow> Continue iv' s''))))
         else Some (Inr (case findPath_expand env cur iv s of (iv', s'') \<Rightarrow> Continue iv' s'')))"

partial_function (option) findPath_loop ::
  "Env \<Rightarrow> int \<Rightarrow> Interval \<Rightarrow> SIPP \<Rightarrow> (error + Path \<times> SIPP) option" where
  "findPath_loop env holding_time iv s =
     (if focal_list s = [] then Some (Inr ([], s))
      else (case findPath_iteration env holding_time iv s of
              None \<Rightarrow> None
            | Some (Inl e) \<Rightarrow> Some (Inl e)
            | Some (Inr (Break path s')) \<Rightarrow> Some (Inr (path, s'))
            | Some (Inr (Continue iv' s')) \<Rightarrow> findPath_loop env holding_time iv' s'))"

declare findPath_loop.simps [code]

definition releaseNodes :: "SIPP \<Rightarrow> SIPP" where
  "releaseNodes s = s\<lparr>open_list := [], focal_list := [], allNodes_table := []\<rparr>"

text \<open>
  The state in which \<open>findPath\<close> enters its loop: the counters reset and the start node
  generated, pushed into FOCAL and inserted into the table.
\<close>

definition findPath_start :: "Env \<Rightarrow> SIPP \<Rightarrow> SIPP" where
  "findPath_start env s0 =
     (let iv = get_first_safe_interval env (start_location env);
          holding_time = getHoldingTime env (goal_location env) (length_min env);
          start = new_SIPPNode (start_location env) 0
                    (max (my_heuristic env (start_location env)) holding_time) None 0 iv 0
      in s0\<lparr>num_expanded := 0, num_generated := 1,
            focal_list := focal_list s0 @ [length (allNodes_table s0)],
            allNodes_table := allNodes_table s0 @ [start\<lparr>in_openlist := True\<rparr>]\<rparr>)"

text \<open>
  \<open>findPath(constraint_table)\<close>: the path and the state of the object on return. \<open>s0\<close> is the
  object on entry.
\<close>

definition findPath :: "Env \<Rightarrow> SIPP \<Rightarrow> (error + Path \<times> SIPP) option" where
  "findPath env s0 =
     (let iv = get_first_safe_interval env (start_location env)
      in if get_0 iv > 0 then Some (Inr ([], s0\<lparr>num_expanded := 0, num_generated := 0\<rparr>))
         else (case findPath_loop env (getHoldingTime env (goal_location env) (length_min env)) iv
                      (findPath_start env s0) of
                 None \<Rightarrow> None
               | Some (Inl e) \<Rightarrow> Some (Inl e)
               | Some (Inr (path, s)) \<Rightarrow> Some (Inr (path, releaseNodes s))))"

section \<open>Mode B: the bounded-suboptimal search (findSuboptimalPath)\<close>

text \<open>
  The bound of FOCAL, \<open>w * min_f_val\<close>. The factor \<open>w\<close> is a \<open>double\<close>, \<open>min_f_val\<close> an \<open>int\<close>
  that is converted to \<open>double\<close>, and the product is the rounded product of the machine,
  \<open>times_double\<close>. An \<open>f\<close> value is compared with it after its own conversion, which is exact.
\<close>

definition focal_bound :: "Env \<Rightarrow> SIPP \<Rightarrow> real" where
  "focal_bound env s = times_double env (suboptimality s) (min_f_val s)"

text \<open>
  \<open>updateFocalList()\<close>, called on a non-empty OPEN. The loop over OPEN visits the nodes in
  the order of the list.
\<close>

definition updateFocalList :: "Env \<Rightarrow> SIPP \<Rightarrow> SIPP" where
  "updateFocalList env s =
     (let open_head = allNodes_table s ! heap_top open_after (allNodes_table s) (open_list s)
      in if getFVal open_head > min_f_val s
         then (let new_min_f_val = getFVal open_head
               in s\<lparr>focal_list := focal_list s @
                       filter (\<lambda>n. real_of_int (getFVal (allNodes_table s ! n)) > focal_bound env s \<and>
                                   real_of_int (getFVal (allNodes_table s ! n))
                                     \<le> times_double env (suboptimality s) new_min_f_val)
                         (open_list s),
                     min_f_val := new_min_f_val\<rparr>)
         else s)"

text \<open>\<open>pushNode(node)\<close> for a node that is in the arena at address \<open>node\<close>.\<close>

definition pushNode :: "Env \<Rightarrow> nat \<Rightarrow> SIPP \<Rightarrow> SIPP" where
  "pushNode env node s =
     (let s1 = s\<lparr>open_list := open_list s @ [node],
                 allNodes_table :=
                   (allNodes_table s)[node := (allNodes_table s ! node)\<lparr>in_openlist := True\<rparr>],
                 num_generated := num_generated s + 1\<rparr>
      in if real_of_int (getFVal (allNodes_table s1 ! node)) \<le> focal_bound env s1
         then s1\<lparr>focal_list := focal_list s1 @ [node]\<rparr> else s1)"

text \<open>
  \<open>generateChild(interval, curr, next_location, reservation_table)\<close>: the temporary node
  \<open>next\<close>, and the function itself. A handle whose key changed is reported to OPEN only
  when \<open>f\<close> improved; the heaps of this model read every key afresh.
\<close>

definition generateChild_next :: "Env \<Rightarrow> Interval \<Rightarrow> nat \<Rightarrow> int \<Rightarrow> SIPP \<Rightarrow> SIPPNode" where
  "generateChild_next env iv cur next_location s =
     (let c = allNodes_table s ! cur;
          next_timestep = max (timestep c + 1) (get_0 iv);
          next_g_val = next_timestep;
          next_h_val = max (my_heuristic env next_location) (getFVal c - next_g_val);
          next_conflicts = num_of_conflicts c + get_2 iv * (next_timestep - timestep c);
          next = new_SIPPNode next_location next_g_val next_h_val (Some cur) next_timestep iv
                   next_conflicts
      in if next_location = goal_location env \<and> location c = goal_location env
         then next\<lparr>wait_at_goal := True\<rparr> else next)"

definition generateChild :: "Env \<Rightarrow> Interval \<Rightarrow> nat \<Rightarrow> int \<Rightarrow> SIPP \<Rightarrow> SIPP" where
  "generateChild env iv cur next_location s =
     (let c = allNodes_table s ! cur;
          next_timestep = max (timestep c + 1) (get_0 iv);
          next_g_val = next_timestep;
          next_h_val = max (my_heuristic env next_location) (getFVal c - next_g_val)
      in if next_g_val + next_h_val > length_max env then s
         else
          (let next = generateChild_next env iv cur next_location s
           in case allNodes_find (allNodes_table s) next of
                None \<Rightarrow>
                  pushNode env (length (allNodes_table s))
                    (s\<lparr>allNodes_table := allNodes_table s @ [next]\<rparr>)
              | Some e \<Rightarrow>
                  (let existing_next = allNodes_table s ! e
                   in if timestep existing_next > timestep next \<or>
                         (timestep existing_next = timestep next \<and>
                          num_of_conflicts existing_next > num_of_conflicts next)
                      then (if \<not> in_openlist existing_next
                            then pushNode env e
                                   (s\<lparr>allNodes_table :=
                                        (allNodes_table s)[e := copy existing_next next]\<rparr>)
                            else
                             (let add_to_focal =
                                    (real_of_int (next_g_val + next_h_val) \<le> focal_bound env s \<and>
                                     real_of_int (getFVal existing_next) > focal_bound env s);
                                  s1 = s\<lparr>allNodes_table :=
                                          (allNodes_table s)[e := copy existing_next next]\<rparr>
                              in if add_to_focal then s1\<lparr>focal_list := focal_list s1 @ [e]\<rparr>
                                 else s1))
                      else s)))"

fun findSuboptimalPath_intervals ::
  "Env \<Rightarrow> nat \<Rightarrow> int \<Rightarrow> Interval list \<Rightarrow> SIPP \<Rightarrow> SIPP" where
  "findSuboptimalPath_intervals env cur next_location [] s = s"
| "findSuboptimalPath_intervals env cur next_location (iv # ivs) s =
     findSuboptimalPath_intervals env cur next_location ivs
       (generateChild env iv cur next_location s)"

fun findSuboptimalPath_neighbors :: "Env \<Rightarrow> nat \<Rightarrow> int list \<Rightarrow> SIPP \<Rightarrow> SIPP" where
  "findSuboptimalPath_neighbors env cur [] s = s"
| "findSuboptimalPath_neighbors env cur (next_location # rest) s =
     (let c = allNodes_table s ! cur
      in findSuboptimalPath_neighbors env cur rest
           (findSuboptimalPath_intervals env cur next_location
              (get_safe_intervals env (location c) next_location (timestep c + 1)
                 (get_1 (interval c) + 1)) s))"

definition findSuboptimalPath_wait :: "Env \<Rightarrow> nat \<Rightarrow> Interval \<Rightarrow> SIPP \<Rightarrow> Interval \<times> SIPP" where
  "findSuboptimalPath_wait env cur iv s =
     (let c = allNodes_table s ! cur;
          (found, iv') = find_safe_interval env iv (location c) (get_1 (interval c))
      in if found then (iv', generateChild env iv' cur (location c) s) else (iv', s))"

definition findSuboptimalPath_expand :: "Env \<Rightarrow> nat \<Rightarrow> Interval \<Rightarrow> SIPP \<Rightarrow> Interval \<times> SIPP" where
  "findSuboptimalPath_expand env cur iv s =
     findSuboptimalPath_wait env cur iv
       (findSuboptimalPath_neighbors env cur
          (getNeighbors env (location (allNodes_table s ! cur))) s)"

text \<open>
  The pop at the head of the loop body: the top of FOCAL leaves FOCAL and OPEN. Taking the
  top of an empty FOCAL, or erasing from OPEN a node that is not in it, is undefined.
\<close>

definition pop_focal_open :: "SIPP \<Rightarrow> error + nat \<times> SIPP" where
  "pop_focal_open s =
     (if focal_list s = [] then Inl UndefinedBehaviour
      else (let cur = heap_top focal_after (allNodes_table s) (focal_list s)
            in if cur \<notin> set (open_list s) then Inl UndefinedBehaviour
               else Inr (cur, s\<lparr>focal_list := remove1 cur (focal_list s),
                                open_list := remove1 cur (open_list s),
                                allNodes_table :=
                                  (allNodes_table s)[cur :=
                                     (allNodes_table s ! cur)\<lparr>in_openlist := False\<rparr>],
                                num_expanded := num_expanded s + 1\<rparr>)))"

text \<open>One round of the \<open>while (!open_list.empty())\<close> loop, for a non-empty OPEN.\<close>

definition findSuboptimalPath_iteration ::
  "Env \<Rightarrow> int \<Rightarrow> Interval \<Rightarrow> SIPP \<Rightarrow> (error + control) option" where
  "findSuboptimalPath_iteration env holding_time iv s0 =
     (case pop_focal_open (updateFocalList env s0) of
        Inl e \<Rightarrow> Some (Inl e)
      | Inr (cur, s) \<Rightarrow>
          (let c = allNodes_table s ! cur
           in if location c = goal_location env \<and> \<not> wait_at_goal c \<and> timestep c \<ge> holding_time
              then break_with (allNodes_table s) cur s
              else Some (Inr (case findSuboptimalPath_expand env cur iv s of
                                (iv', s') \<Rightarrow> Continue iv' s'))))"

partial_function (option) findSuboptimalPath_loop ::
  "Env \<Rightarrow> int \<Rightarrow> Interval \<Rightarrow> SIPP \<Rightarrow> (error + Path \<times> SIPP) option" where
  "findSuboptimalPath_loop env holding_time iv s =
     (if open_list s = [] then Some (Inr ([], s))
      else (case findSuboptimalPath_iteration env holding_time iv s of
              None \<Rightarrow> None
            | Some (Inl e) \<Rightarrow> Some (Inl e)
            | Some (Inr (Break path s')) \<Rightarrow> Some (Inr (path, s'))
            | Some (Inr (Continue iv' s')) \<Rightarrow> findSuboptimalPath_loop env holding_time iv' s'))"

declare findSuboptimalPath_loop.simps [code]

text \<open>
  The state in which \<open>findSuboptimalPath\<close> enters its loop. The start node goes into OPEN
  and FOCAL directly, and \<open>min_f_val\<close> starts at the largest of the holding time, the start
  node's \<open>f\<close> and the caller's lower bound.
\<close>

definition findSuboptimalPath_start :: "Env \<Rightarrow> int \<Rightarrow> real \<Rightarrow> SIPP \<Rightarrow> SIPP" where
  "findSuboptimalPath_start env lowerbound w s0 =
     (let iv = get_first_safe_interval env (start_location env);
          holding_time = getHoldingTime env (goal_location env) (length_min env);
          start = new_SIPPNode (start_location env) 0
                    (max (my_heuristic env (start_location env)) holding_time) None 0 iv 0
      in s0\<lparr>suboptimality := w, num_expanded := 0, num_generated := 1,
            open_list := open_list s0 @ [length (allNodes_table s0)],
            focal_list := focal_list s0 @ [length (allNodes_table s0)],
            allNodes_table := allNodes_table s0 @ [start\<lparr>in_openlist := True\<rparr>],
            min_f_val := max holding_time (max (getFVal start) lowerbound)\<rparr>)"

text \<open>
  \<open>findSuboptimalPath(node, initial_constraints, paths, agent, lowerbound, w)\<close>. The first
  four arguments only serve to build the constraint table and the reservation table, whose
  code is not part of the sources; \<open>env\<close> stands for the tables so built. The result is the
  pair returned together with the object on return.
\<close>

definition findSuboptimalPath ::
  "Env \<Rightarrow> int \<Rightarrow> real \<Rightarrow> SIPP \<Rightarrow> (error + (Path \<times> int) \<times> SIPP) option" where
  "findSuboptimalPath env lowerbound w s0 =
     (let iv = get_first_safe_interval env (start_location env)
      in if get_0 iv > 0
         then Some (Inr (([], 0), s0\<lparr>suboptimality := w, num_expanded := 0, num_generated := 0\<rparr>))
         else (case findSuboptimalPath_loop env
                      (getHoldingTime env (goal_location env) (length_min env)) iv
                      (findSuboptimalPath_start env lowerbound w s0) of
                 None \<Rightarrow> None
               | Some (Inl e) \<Rightarrow> Some (Inl e)
               | Some (Inr (path, s)) \<Rightarrow> Some (Inr ((path, min_f_val s), releaseNodes s))))"

text \<open>\<open>findOptimalPath(node, initial_constraints, paths, agent, lowerbound)\<close>.\<close>

definition findOptimalPath :: "Env \<Rightarrow> int \<Rightarrow> SIPP \<Rightarrow> (error + Path \<times> SIPP) option" where
  "findOptimalPath env lowerbound s0 =
     (case findSuboptimalPath env lowerbound 1 s0 of
        None \<Rightarrow> None
      | Some (Inl e) \<Rightarrow> Some (Inl e)
      | Some (Inr ((path, m), s)) \<Rightarrow> Some (Inr (path, s)))"

section \<open>Concrete inputs\<close>

text \<open>
  A 2 x 3 grid, cells \<open>0 1 2 / 3 4 5\<close>; the agent goes from cell 0 to cell 2 and the
  heuristic is the Manhattan distance to cell 2. There is no hard constraint; the path must
  have at least 3 and at most 6 steps. Another agent stands on cell 1 up to time 5, steps
  onto cell 2 at time 6 and back onto cell 1 at time 7: \<open>SI\<close> lists the resulting safe
  intervals of a cell with their soft collisions. The intervals of the goal cell are cut
  at the holding time 3. The searches below are run with the factors 1 and 2 on small
  values, for which the rounded product of the machine is the product itself.
\<close>

definition SI :: "int \<Rightarrow> Interval list" where
  "SI c = (if c = 1 then [(0, 6, 1), (6, 7, 0), (7, 1000, 1)]
           else if c = 2 then [(0, 3, 0), (3, 6, 0), (6, 7, 1), (7, 1000, 0)]
           else [(0, 1000, 0)])"

definition grid_env :: Env where
  "grid_env =
     \<lparr>start_location = 0, goal_location = 2,
      my_heuristic = (\<lambda>c. if c = 0 then 2 else if c = 1 then 1 else if c = 2 then 0
                           else if c = 3 then 3 else if c = 4 then 2 else 1),
      getNeighbors = (\<lambda>c. if c = 0 then [1, 3] else if c = 1 then [2, 0, 4]
                           else if c = 2 then [1, 5] else if c = 3 then [4, 0]
                           else if c = 4 then [5, 3, 1] else [4, 2]),
      get_first_safe_interval = (\<lambda>c. hd (SI c)),
      get_safe_intervals =
        (\<lambda>from to lo hi. filter (\<lambda>iv. get_0 iv < hi \<and> lo < get_1 iv) (SI to)),
      find_safe_interval =
        (\<lambda>iv loc t. case filter (\<lambda>i. get_0 i \<le> t \<and> t < get_1 i) (SI loc) of
                        [] \<Rightarrow> (False, iv)
                      | i # _ \<Rightarrow> if t \<ge> 7 then (False, iv) else (True, (t, get_1 i, get_2 i))),
      getHoldingTime = (\<lambda>loc t. t),
      getFutureNumOfCollisions = (\<lambda>loc t. if loc = 2 \<and> t < 6 then 1 else 0),
      length_min = 3, length_max = 6,
      times_double = (\<lambda>w m. w * real_of_int m)\<rparr>"

text \<open>The same grid with the start cell blocked at time 0 by a hard constraint.\<close>

definition blocked_env :: Env where
  "blocked_env = grid_env\<lparr>get_first_safe_interval := (\<lambda>c. if c = 0 then (1, 1000, 0) else hd (SI c))\<rparr>"

text \<open>The planner object between two calls: the heaps and the node table are empty.\<close>

definition idle_SIPP :: SIPP where
  "idle_SIPP =
     \<lparr>allNodes_table = [], open_list = [], focal_list = [], min_f_val = 0, suboptimality = 1,
      num_expanded = 0, num_generated = 0\<rparr>"

text \<open>
  A corridor of two cells: the agent goes from cell 0 to its neighbour, cell 1. Cell 0 is
  blocked at time 2 by a hard constraint; the path must have at least 3 and at most 4 steps,
  so that the goal's safe intervals are \<open>[0, 3)\<close> and \<open>[3, 5)\<close>, the second with one soft
  collision.
\<close>

definition corridor_SI :: "int \<Rightarrow> Interval list" where
  "corridor_SI c = (if c = 0 then [(0, 2, 0), (3, 1000, 0)] else [(0, 3, 0), (3, 5, 1)])"

definition corridor_env :: Env where
  "corridor_env =
     \<lparr>start_location = 0, goal_location = 1,
      my_heuristic = (\<lambda>c. if c = 0 then 1 else 0),
      getNeighbors = (\<lambda>c. if c = 0 then [1] else [0]),
      get_first_safe_interval = (\<lambda>c. hd (corridor_SI c)),
      get_safe_intervals =
        (\<lambda>from to lo hi. filter (\<lambda>iv. get_0 iv < hi \<and> lo < get_1 iv) (corridor_SI to)),
      find_safe_interval =
        (\<lambda>iv loc t. case filter (\<lambda>i. get_0 i \<le> t \<and> t < get_1 i) (corridor_SI loc) of
                        [] \<Rightarrow> (False, iv)
                      | i # _ \<Rightarrow> if t \<ge> 5 then (False, iv) else (True, (t, get_1 i, get_2 i))),
      getHoldingTime = (\<lambda>loc t. t),
      getFutureNumOfCollisions = (\<lambda>loc t. 0),
      length_min = 3, length_max = 4,
      times_double = (\<lambda>w m. w * real_of_int m)\<rparr>"

section \<open>Notions used to state the properties\<close>

text \<open>
  The state at the head of the loop after \<open>k\<close> rounds (or the last such state, when the loop
  ends earlier), for either search.
\<close>

fun findPath_rounds :: "nat \<Rightarrow> Env \<Rightarrow> int \<Rightarrow> Interval \<Rightarrow> SIPP \<Rightarrow> Interval \<times> SIPP" where
  "findPath_rounds 0 env holding_time iv s = (iv, s)"
| "findPath_rounds (Suc k) env holding_time iv s =
     (if focal_list s = [] then (iv, s)
      else (case findPath_iteration env holding_time iv s of
              Some (Inr (Continue iv' s')) \<Rightarrow> findPath_rounds k env holding_time iv' s'
            | _ \<Rightarrow> (iv, s)))"

fun findSuboptimalPath_rounds ::
  "nat \<Rightarrow> Env \<Rightarrow> int \<Rightarrow> Interval \<Rightarrow> SIPP \<Rightarrow> Interval \<times> SIPP" where
  "findSuboptimalPath_rounds 0 env holding_time iv s = (iv, s)"
| "findSuboptimalPath_rounds (Suc k) env holding_time iv s =
     (if open_list s = [] then (iv, s)
      else (case findSuboptimalPath_iteration env holding_time iv s of
              Some (Inr (Continue iv' s')) \<Rightarrow> findSuboptimalPath_rounds k env holding_time iv' s'
            | _ \<Rightarrow> (iv, s)))"

text \<open>
  What a piece of code did to the planner between the states \<open>s\<close> and \<open>s'\<close>: the node at
  address \<open>a\<close> was written (created or overwritten), or \<open>a\<close> was inserted into a heap.
\<close>

definition written :: "SIPP \<Rightarrow> SIPP \<Rightarrow> nat \<Rightarrow> bool" where
  "written s s' a \<longleftrightarrow>
     a < length (allNodes_table s') \<and>
     (length (allNodes_table s) \<le> a \<or> allNodes_table s' ! a \<noteq> allNodes_table s ! a)"

definition inserted :: "SIPP \<Rightarrow> SIPP \<Rightarrow> nat \<Rightarrow> bool" where
  "inserted s s' a \<longleftrightarrow>
     (a \<in> set (focal_list s') \<and> a \<notin> set (focal_list s)) \<or>
     (a \<in> set (open_list s') \<and> a \<notin> set (open_list s))"

text \<open>The corridor search of mode A in its second round, node 1 just popped.\<close>

definition corridor_popped :: SIPP where
  "corridor_popped =
     snd (pop_focal (snd (findPath_rounds 1 corridor_env 3 (0, 2, 0)
                            (findPath_start corridor_env idle_SIPP))))"

text \<open>
  Every node written or inserted between \<open>s\<close> and \<open>s'\<close> satisfies \<open>P\<close> in \<open>s'\<close> (and the node
  table did not shrink).
\<close>

definition all_written_satisfy :: "(SIPPNode \<Rightarrow> bool) \<Rightarrow> SIPP \<Rightarrow> SIPP \<Rightarrow> bool" where
  "all_written_satisfy P s s' \<longleftrightarrow>
     length (allNodes_table s) \<le> length (allNodes_table s') \<and>
     (\<forall>a. written s s' a \<or> inserted s s' a \<longrightarrow>
            a < length (allNodes_table s') \<and> P (allNodes_table s' ! a))"

text \<open>The head of a round of mode B: FOCAL is brought up to date and its top is popped.\<close>

definition findSuboptimalPath_pop :: "Env \<Rightarrow> SIPP \<Rightarrow> error + nat \<times> SIPP" where
  "findSuboptimalPath_pop env s = pop_focal_open (updateFocalList env s)"

text \<open>
  The shape of the node table during a search of mode A. Node 0 is the root: the start
  cell at time 0, without parent. Every other node has a parent in the table that is not a
  virtual goal node. An ordinary node comes strictly later than its parent, on the same
  cell or on a neighbour of it; a virtual goal node sits on the cell of its parent, the
  goal, with the same interval start. No time step is negative.
\<close>

definition link :: "Env \<Rightarrow> SIPPNode \<Rightarrow> SIPPNode \<Rightarrow> bool" where
  "link env pn n \<longleftrightarrow>
     (if is_goal n
      then location n = location pn \<and> get_0 (interval n) = get_0 (interval pn) \<and>
           location pn = goal_location env
      else timestep pn < timestep n \<and>
           (location n = location pn \<or> location n \<in> set (getNeighbors env (location pn))))"

definition search_tree :: "Env \<Rightarrow> SIPPNode list \<Rightarrow> bool" where
  "search_tree env ns \<longleftrightarrow>
     ns \<noteq> [] \<and> parent (ns ! 0) = None \<and> timestep (ns ! 0) = 0 \<and>
     location (ns ! 0) = start_location env \<and> \<not> is_goal (ns ! 0) \<and>
     (\<forall>a<length ns. 0 \<le> timestep (ns ! a)) \<and>
     (\<forall>a<length ns. 0 < a \<longrightarrow>
        (\<exists>p<length ns. parent (ns ! a) = Some p \<and> \<not> is_goal (ns ! p) \<and>
                        link env (ns ! p) (ns ! a)))"

definition findPath_inv :: "Env \<Rightarrow> SIPP \<Rightarrow> bool" where
  "findPath_inv env s \<longleftrightarrow>
     search_tree env (allNodes_table s) \<and>
     (\<forall>a\<in>set (focal_list s). a < length (allNodes_table s))"

text \<open>
  \<open>on_chain ns g c\<close>: the node \<open>c\<close> is met when the parent pointers are followed from \<open>g\<close>.
\<close>

inductive on_chain :: "SIPPNode list \<Rightarrow> nat \<Rightarrow> nat \<Rightarrow> bool" for ns :: "SIPPNode list" and g :: nat where
  on_chain_self: "on_chain ns g g"
| on_chain_parent: "on_chain ns g c \<Longrightarrow> parent (ns ! c) = Some p \<Longrightarrow> on_chain ns g p"

text \<open>Two cells that a path may occupy at consecutive time steps.\<close>

definition stay_or_move :: "Env \<Rightarrow> int \<Rightarrow> int \<Rightarrow> bool" where
  "stay_or_move env x y \<longleftrightarrow> y = x \<or> y \<in> set (getNeighbors env x)"

text \<open>
  \<open>reconstructed env ns g p\<close>: the path \<open>p\<close> is what \<open>updatePath\<close> returns for the node \<open>g\<close> of
  the node table \<open>ns\<close>, a node on the goal cell, and it is the walk along the parent chain
  of \<open>g\<close>: one entry per time step up to the time step of \<open>g\<close>; every node of the chain at its
  own time step; the parent's cell at the time steps between a parent and its child; the
  root at time 0 on the start cell.
\<close>

definition reconstructed :: "Env \<Rightarrow> SIPPNode list \<Rightarrow> nat \<Rightarrow> Path \<Rightarrow> bool" where
  "reconstructed env ns g p \<longleftrightarrow>
     g < length ns \<and> location (ns ! g) = goal_location env \<and>
     updatePath ns g = Some (Inr p) \<and>
     int (length p) = timestep (ns ! g) + 1 \<and>
     p ! 0 = start_location env \<and> last p = goal_location env \<and>
     (\<forall>c. on_chain ns g c \<longrightarrow>
          p ! nat (timestep (ns ! c)) = location (ns ! c) \<and>
          (parent (ns ! c) = None \<longrightarrow> timestep (ns ! c) = 0) \<and>
          (\<forall>pr t. parent (ns ! c) = Some pr \<longrightarrow> timestep (ns ! pr) < t \<longrightarrow>
                   t < timestep (ns ! c) \<longrightarrow> p ! nat t = location (ns ! pr))) \<and>
     (\<forall>i. Suc i < length p \<longrightarrow> stay_or_move env (p ! i) (p ! Suc i))"

text \<open>
  Modelled from the spec: the reservation table (its code is not part of the sources), as
  far as the goal cell is concerned. An interval is a non-empty range \<open>[low, high)\<close>;
  \<open>get_safe_intervals\<close> returns the intervals whose earliest arrival, not before \<open>t_lo\<close>,
  lies in the interval; \<open>find_safe_interval\<close> returns an interval that starts at or after
  the time asked for; and the intervals of the goal cell are clipped at the holding time,
  so that none of them begins before it and ends after it.
\<close>

definition reservation_contract :: "Env \<Rightarrow> bool" where
  "reservation_contract env \<longleftrightarrow>
     (let goal = goal_location env; ht = getHoldingTime env goal (length_min env)
      in (\<forall>from lo hi iv. iv \<in> set (get_safe_intervals env from goal lo hi) \<longrightarrow>
            max lo (get_0 iv) < get_1 iv \<and> (get_0 iv < ht \<longrightarrow> get_1 iv \<le> ht)) \<and>
         (\<forall>iv0 t iv. find_safe_interval env iv0 goal t = (True, iv) \<longrightarrow>
            t \<le> get_0 iv \<and> get_0 iv < get_1 iv \<and> (get_0 iv < ht \<longrightarrow> get_1 iv \<le> ht)) \<and>
         (start_location env = goal \<longrightarrow>
            0 < get_1 (get_first_safe_interval env goal) \<and>
            (get_0 (get_first_safe_interval env goal) < ht \<longrightarrow>
             get_1 (get_first_safe_interval env goal) \<le> ht)))"

text \<open>
  What the contract gives for the node table: a node on the goal cell lies inside its
  interval, which is clipped at the holding time \<open>ht\<close>; the parent of a virtual goal node
  has a time step of at least \<open>ht\<close>; and no node has an \<open>f\<close> value below \<open>ht\<close>.
\<close>

definition goal_intervals_inv :: "Env \<Rightarrow> int \<Rightarrow> SIPPNode list \<Rightarrow> bool" where
  "goal_intervals_inv env ht ns \<longleftrightarrow>
     (\<forall>a<length ns. location (ns ! a) = goal_location env \<longrightarrow>
        timestep (ns ! a) < get_1 (interval (ns ! a)) \<and>
        (get_0 (interval (ns ! a)) < ht \<longrightarrow> get_1 (interval (ns ! a)) \<le> ht)) \<and>
     (\<forall>a<length ns. is_goal (ns ! a) \<longrightarrow>
        (\<forall>p. parent (ns ! a) = Some p \<longrightarrow> ht \<le> timestep (ns ! p))) \<and>
     (\<forall>a<length ns. ht \<le> getFVal (ns ! a))"

text \<open>
  The grid once more, but with a reservation table that does not clip the goal's intervals
  at the holding time: the first safe interval of cell 2 is \<open>[0, 6)\<close>.
\<close>

definition unclipped_SI :: "int \<Rightarrow> Interval list" where
  "unclipped_SI c = (if c = 2 then [(0, 6, 0), (6, 7, 1), (7, 1000, 0)] else SI c)"

definition unclipped_env :: Env where
  "unclipped_env =
     grid_env\<lparr>get_first_safe_interval := (\<lambda>c. hd (unclipped_SI c)),
              get_safe_intervals :=
                (\<lambda>from to lo hi. filter (\<lambda>iv. get_0 iv < hi \<and> lo < get_1 iv) (unclipped_SI to)),
              find_safe_interval :=
                (\<lambda>iv loc t. case filter (\<lambda>i. get_0 i \<le> t \<and> t < get_1 i) (unclipped_SI loc) of
                                [] \<Rightarrow> (False, iv)
                              | i # _ \<Rightarrow> if t \<ge> 7 then (False, iv)
                                         else (True, (t, get_1 i, get_2 i)))\<rparr>"

text \<open>
  Further facts about mode A between and inside its rounds. FOCAL holds no address twice
  and holds exactly the nodes whose \<open>in_openlist\<close> flag is set; no two nodes of the table
  have the same key; a virtual goal node is open.
\<close>

definition focal_inv :: "SIPP \<Rightarrow> bool" where
  "focal_inv s \<longleftrightarrow>
     distinct (focal_list s) \<and>
     (\<forall>a<length (allNodes_table s).
        in_openlist (allNodes_table s ! a) \<longleftrightarrow> a \<in> set (focal_list s))"

definition keys_unique :: "SIPPNode list \<Rightarrow> bool" where
  "keys_unique ns \<longleftrightarrow> (\<forall>a<length ns. \<forall>b<length ns. eqnode (ns ! a) (ns ! b) \<longrightarrow> a = b)"

definition goal_open :: "SIPPNode list \<Rightarrow> bool" where
  "goal_open ns \<longleftrightarrow> (\<forall>a<length ns. is_goal (ns ! a) \<longrightarrow> in_openlist (ns ! a))"

text \<open>
  A virtual goal node \<open>g\<close> records the time step and the conflicts (with the future
  collisions added) that its parent \<open>pn\<close> had when \<open>g\<close> was last written. The parent can only
  have improved since: it is not behind the record, and it is strictly ahead of it while
  it waits in FOCAL to be expanded again.
\<close>

definition goal_behind :: "Env \<Rightarrow> SIPPNode \<Rightarrow> SIPPNode \<Rightarrow> bool" where
  "goal_behind env pn g \<longleftrightarrow>
     timestep pn < timestep g \<or>
     (timestep pn = timestep g \<and>
      num_of_conflicts pn + getFutureNumOfCollisions env (location pn) (timestep pn)
        \<le> num_of_conflicts g)"

definition goal_strictly_behind :: "Env \<Rightarrow> SIPPNode \<Rightarrow> SIPPNode \<Rightarrow> bool" where
  "goal_strictly_behind env pn g \<longleftrightarrow>
     timestep pn < timestep g \<or>
     (timestep pn = timestep g \<and>
      num_of_conflicts pn + getFutureNumOfCollisions env (location pn) (timestep pn)
        < num_of_conflicts g)"

definition goal_current :: "Env \<Rightarrow> SIPPNode list \<Rightarrow> bool" where
  "goal_current env ns \<longleftrightarrow>
     (\<forall>a<length ns. is_goal (ns ! a) \<longrightarrow>
        (\<forall>p. parent (ns ! a) = Some p \<longrightarrow>
           goal_behind env (ns ! p) (ns ! a) \<and>
           (in_openlist (ns ! p) \<longrightarrow> goal_strictly_behind env (ns ! p) (ns ! a))))"

definition queue_inv :: "Env \<Rightarrow> SIPP \<Rightarrow> bool" where
  "queue_inv env s \<longleftrightarrow>
     findPath_inv env s \<and> focal_inv s \<and> keys_unique (allNodes_table s) \<and>
     goal_open (allNodes_table s) \<and> goal_current env (allNodes_table s)"

text \<open>
  The spec's rule for a duplicate in mode A, in its own words: the node \<open>new\<close> has just been
  generated and the table already holds a node with the same key, at address \<open>e\<close>. The
  existing node is replaced by the new one if and only if the new one has a strictly smaller
  time step, or the same time step and strictly fewer conflicts; a replaced node that was
  closed is reopened, that is pushed back into FOCAL; a replaced node that was open stays in
  FOCAL, where its key has changed; otherwise nothing happens.
\<close>

definition spec_duplicate_handling :: "nat \<Rightarrow> SIPPNode \<Rightarrow> SIPP \<Rightarrow> SIPP" where
  "spec_duplicate_handling e new s =
     (let existing = allNodes_table s ! e
      in if timestep new < timestep existing \<or>
            (timestep new = timestep existing \<and> num_of_conflicts new < num_of_conflicts existing)
         then (if in_openlist existing
               then s\<lparr>allNodes_table := (allNodes_table s)[e := new\<lparr>in_openlist := True\<rparr>]\<rparr>
               else s\<lparr>allNodes_table := (allNodes_table s)[e := new\<lparr>in_openlist := True\<rparr>],
                      focal_list := focal_list s @ [e]\<rparr>)
         else s)"

text \<open>
  The facts about the node table and the heaps that mode B keeps: the table is a search
  tree, no node of it is tagged \<open>is_goal\<close> (mode B has no virtual goal node), and OPEN and
  FOCAL hold addresses of the table.
\<close>

definition findSuboptimalPath_inv :: "Env \<Rightarrow> SIPP \<Rightarrow> bool" where
  "findSuboptimalPath_inv env s \<longleftrightarrow>
     search_tree env (allNodes_table s) \<and>
     (\<forall>a<length (allNodes_table s). \<not> is_goal (allNodes_table s ! a)) \<and>
     (\<forall>a\<in>set (open_list s). a < length (allNodes_table s)) \<and>
     (\<forall>a\<in>set (focal_list s). a < length (allNodes_table s))"

section \<open>Properties\<close>

subsection \<open>The node table\<close>

lemma allNodes_find_Some:
  "allNodes_find ns n = Some e \<Longrightarrow> e < length ns \<and> eqnode (ns ! e) n"
proof (induction ns arbitrary: e)
  case Nil
  then show ?case by simp
next
  case (Cons x xs)
  show ?case
  proof (cases "eqnode x n")
    case True
    with Cons.prems show ?thesis by simp
  next
    case False
    with Cons.prems obtain e' where "allNodes_find xs n = Some e'" "e = Suc e'"
      by auto
    with Cons.IH show ?thesis by simp
  qed
qed

lemma allNodes_find_None:
  "allNodes_find ns n = None \<Longrightarrow> x \<in> set ns \<Longrightarrow> \<not> eqnode x n"
  by (induction ns) (auto split: if_splits)

subsection \<open>The optimal-path entry point\<close>

text \<open>
  Claim C9. \<open>findOptimalPath\<close> returns exactly the path component of \<open>findSuboptimalPath\<close>
  called with the same arguments and the factor \<open>w = 1\<close>: whatever the bounded-suboptimal
  search does (fail, not return, or return a pair), the optimal entry point does the same
  and drops the second component of the pair.
\<close>

theorem findOptimalPath_is_findSuboptimalPath_1:
  "findOptimalPath env lowerbound s0 =
     map_option (map_sum id (\<lambda>(r, s). (fst r, s))) (findSuboptimalPath env lowerbound 1 s0)"
  by (simp add: findOptimalPath_def split: option.split sum.split prod.split)

subsection \<open>Initial feasibility\<close>

text \<open>
  Claim C3. When the first safe interval of the start location begins after time 0, both
  searches return the empty path at once: no node is generated or expanded (both counters
  are 0 and the heaps and the node table are as on entry), and \<open>findSuboptimalPath\<close>
  returns 0 as the second component.
\<close>

theorem blocked_start_returns_empty:
  assumes "get_0 (get_first_safe_interval env (start_location env)) > 0"
  shows "findPath env s0 = Some (Inr ([], s0\<lparr>num_expanded := 0, num_generated := 0\<rparr>)) \<and>
         findSuboptimalPath env lowerbound w s0 =
           Some (Inr (([], 0), s0\<lparr>suboptimality := w, num_expanded := 0, num_generated := 0\<rparr>))"
  using assms by (simp add: findPath_def findSuboptimalPath_def)

theorem blocked_start_returns_empty_witness:
  "get_0 (get_first_safe_interval blocked_env (start_location blocked_env)) > 0 \<and>
   findPath blocked_env idle_SIPP = Some (Inr ([], idle_SIPP)) \<and>
   findSuboptimalPath blocked_env 0 1 idle_SIPP = Some (Inr (([], 0), idle_SIPP))"
proof -
  have h: "get_0 (get_first_safe_interval blocked_env (start_location blocked_env)) > 0"
    by (simp add: blocked_env_def grid_env_def get_0_def)
  have e: "idle_SIPP\<lparr>num_expanded := 0, num_generated := 0\<rparr> = idle_SIPP"
          "idle_SIPP\<lparr>suboptimality := 1, num_expanded := 0, num_generated := 0\<rparr> = idle_SIPP"
    by (simp_all add: idle_SIPP_def)
  from blocked_start_returns_empty [OF h, of idle_SIPP 0 1] h e show ?thesis
    by simp
qed

subsection \<open>Fields of the generated nodes\<close>

lemma copy_fields [simp]:
  "location (copy a b) = location b" "g_val (copy a b) = g_val b" "h_val (copy a b) = h_val b"
  "parent (copy a b) = parent b" "timestep (copy a b) = timestep b"
  "num_of_conflicts (copy a b) = num_of_conflicts b" "wait_at_goal (copy a b) = wait_at_goal b"
  "is_goal (copy a b) = is_goal b" "interval (copy a b) = interval b"
  "in_openlist (copy a b) = in_openlist a"
  by (simp_all add: copy_def)

lemma getFVal_copy [simp]: "getFVal (copy a b) = getFVal b"
  by (simp add: getFVal_def)

lemma getFVal_in_openlist [simp]: "getFVal (n\<lparr>in_openlist := b\<rparr>) = getFVal n"
  by (simp add: getFVal_def)

lemma generateChildToFocal_next_fields:
  "location (generateChildToFocal_next env iv cur loc h s) = loc"
  "parent (generateChildToFocal_next env iv cur loc h s) = Some cur"
  "timestep (generateChildToFocal_next env iv cur loc h s) =
     max (timestep (allNodes_table s ! cur) + 1) (get_0 iv)"
  "g_val (generateChildToFocal_next env iv cur loc h s) =
     max (timestep (allNodes_table s ! cur) + 1) (get_0 iv)"
  "h_val (generateChildToFocal_next env iv cur loc h s) =
     max h (getFVal (allNodes_table s ! cur) - max (timestep (allNodes_table s ! cur) + 1) (get_0 iv))"
  "num_of_conflicts (generateChildToFocal_next env iv cur loc h s) =
     num_of_conflicts (allNodes_table s ! cur) + get_2 iv"
  "is_goal (generateChildToFocal_next env iv cur loc h s) = False"
  "in_openlist (generateChildToFocal_next env iv cur loc h s) = False"
  "interval (generateChildToFocal_next env iv cur loc h s) = iv"
  "wait_at_goal (generateChildToFocal_next env iv cur loc h s) =
     (loc = goal_location env \<and> location (allNodes_table s ! cur) = goal_location env)"
  by (simp_all add: generateChildToFocal_next_def new_SIPPNode_def Let_def)

lemma generateChild_next_fields:
  "location (generateChild_next env iv cur loc s) = loc"
  "parent (generateChild_next env iv cur loc s) = Some cur"
  "timestep (generateChild_next env iv cur loc s) =
     max (timestep (allNodes_table s ! cur) + 1) (get_0 iv)"
  "g_val (generateChild_next env iv cur loc s) =
     max (timestep (allNodes_table s ! cur) + 1) (get_0 iv)"
  "h_val (generateChild_next env iv cur loc s) =
     max (my_heuristic env loc)
       (getFVal (allNodes_table s ! cur) - max (timestep (allNodes_table s ! cur) + 1) (get_0 iv))"
  "num_of_conflicts (generateChild_next env iv cur loc s) =
     num_of_conflicts (allNodes_table s ! cur) +
     get_2 iv * (max (timestep (allNodes_table s ! cur) + 1) (get_0 iv) -
                 timestep (allNodes_table s ! cur))"
  "is_goal (generateChild_next env iv cur loc s) = False"
  "in_openlist (generateChild_next env iv cur loc s) = False"
  "interval (generateChild_next env iv cur loc s) = iv"
  "wait_at_goal (generateChild_next env iv cur loc s) =
     (loc = goal_location env \<and> location (allNodes_table s ! cur) = goal_location env)"
  by (simp_all add: generateChild_next_def new_SIPPNode_def Let_def)

subsection \<open>What one call of a generator does\<close>

text \<open>
  The node table after \<open>generateChildToFocal\<close>: unchanged, extended by the new node, or with
  one existing node overwritten by the new node's contents.
\<close>

lemma generateChildToFocal_table:
  fixes env iv cur loc h s
  defines "next \<equiv> generateChildToFocal_next env iv cur loc h s"
  defines "s' \<equiv> generateChildToFocal env iv cur loc h s"
  shows "allNodes_table s' = allNodes_table s \<or>
         allNodes_table s' = allNodes_table s @ [next\<lparr>in_openlist := True\<rparr>] \<or>
         (\<exists>e b. e < length (allNodes_table s) \<and>
            allNodes_table s' =
              (allNodes_table s)[e := (copy (allNodes_table s ! e) next)\<lparr>in_openlist := b\<rparr>])"
proof (cases "allNodes_find (allNodes_table s) next")
  case None
  then show ?thesis
    by (simp add: s'_def generateChildToFocal_def next_def [symmetric])
next
  case (Some e)
  then have e: "e < length (allNodes_table s)"
    by (simp add: allNodes_find_Some)
  let ?ex = "allNodes_table s ! e"
  have c: "(copy ?ex next)\<lparr>in_openlist := in_openlist ?ex\<rparr> = copy ?ex next"
    by (simp add: copy_def)
  show ?thesis
  proof (cases "timestep ?ex > timestep next \<or>
                (timestep ?ex = timestep next \<and> num_of_conflicts ?ex > num_of_conflicts next)")
    case False
    with Some have "s' = s"
      by (auto simp: s'_def generateChildToFocal_def next_def [symmetric] Let_def)
    then show ?thesis by simp
  next
    case better: True
    show ?thesis
    proof (cases "in_openlist ?ex")
      case False
      with Some better have "allNodes_table s' =
          (allNodes_table s)[e := (copy ?ex next)\<lparr>in_openlist := True\<rparr>]"
        by (simp add: s'_def generateChildToFocal_def next_def [symmetric] Let_def)
      with e show ?thesis by blast
    next
      case True
      with Some better have "allNodes_table s' = (allNodes_table s)[e := copy ?ex next]"
        by (simp add: s'_def generateChildToFocal_def next_def [symmetric] Let_def)
      then have "allNodes_table s' =
          (allNodes_table s)[e := (copy ?ex next)\<lparr>in_openlist := in_openlist ?ex\<rparr>]"
        by (simp only: c)
      with e show ?thesis by blast
    qed
  qed
qed

lemma pushNode_table:
  "allNodes_table (pushNode env node s) =
     (allNodes_table s)[node := (allNodes_table s ! node)\<lparr>in_openlist := True\<rparr>]"
  by (simp add: pushNode_def Let_def)

lemma generateChild_table:
  fixes env iv cur loc s
  defines "next \<equiv> generateChild_next env iv cur loc s"
  defines "s' \<equiv> generateChild env iv cur loc s"
  shows "allNodes_table s' = allNodes_table s \<or>
         allNodes_table s' = allNodes_table s @ [next\<lparr>in_openlist := True\<rparr>] \<or>
         (\<exists>e b. e < length (allNodes_table s) \<and>
            allNodes_table s' =
              (allNodes_table s)[e := (copy (allNodes_table s ! e) next)\<lparr>in_openlist := b\<rparr>])"
proof (cases "max (timestep (allNodes_table s ! cur) + 1) (get_0 iv) +
                max (my_heuristic env loc)
                  (getFVal (allNodes_table s ! cur) -
                   max (timestep (allNodes_table s ! cur) + 1) (get_0 iv)) > length_max env")
  case True
  then have "s' = s"
    by (simp add: s'_def generateChild_def Let_def)
  then show ?thesis by simp
next
  case fits: False
  show ?thesis
  proof (cases "allNodes_find (allNodes_table s) next")
    case None
    with fits show ?thesis
      by (simp add: s'_def generateChild_def next_def [symmetric] Let_def pushNode_table)
  next
    case (Some e)
    then have e: "e < length (allNodes_table s)"
      by (simp add: allNodes_find_Some)
    let ?ex = "allNodes_table s ! e"
    have c: "(copy ?ex next)\<lparr>in_openlist := in_openlist ?ex\<rparr> = copy ?ex next"
      by (simp add: copy_def)
    show ?thesis
    proof (cases "timestep ?ex > timestep next \<or>
                  (timestep ?ex = timestep next \<and> num_of_conflicts ?ex > num_of_conflicts next)")
      case False
      with Some fits have "s' = s"
        by (auto simp: s'_def generateChild_def next_def [symmetric] Let_def)
      then show ?thesis by simp
    next
      case better: True
      show ?thesis
      proof (cases "in_openlist ?ex")
        case False
        with Some better fits e have "allNodes_table s' =
            (allNodes_table s)[e := (copy ?ex next)\<lparr>in_openlist := True\<rparr>]"
          by (simp add: s'_def generateChild_def next_def [symmetric] Let_def pushNode_table)
        with e show ?thesis by blast
      next
        case True
        with Some better fits have "allNodes_table s' = (allNodes_table s)[e := copy ?ex next]"
          by (simp add: s'_def generateChild_def next_def [symmetric] Let_def)
        then have "allNodes_table s' =
            (allNodes_table s)[e := (copy ?ex next)\<lparr>in_openlist := in_openlist ?ex\<rparr>]"
          by (simp only: c)
        with e show ?thesis by blast
      qed
    qed
  qed
qed

subsection \<open>Conflict counts of the children\<close>

text \<open>
  Claim C5, as the code has it. Whatever node a call of a generator writes into the node
  table (a new child, or an existing node overwritten by the child), its conflict count is:
  in mode A (\<open>generateChildToFocal\<close>) the parent's count plus the interval's collision count,
  added once; in mode B (\<open>generateChild\<close>) the parent's count plus the interval's collision
  count multiplied by the number of steps \<open>next_timestep - curr.timestep\<close>. This holds for
  every expansion, in particular when waiting steps intervene.
\<close>

theorem child_conflict_counts:
  "(written s (generateChildToFocal env iv cur loc h s) a \<longrightarrow>
      num_of_conflicts (allNodes_table (generateChildToFocal env iv cur loc h s) ! a) =
        num_of_conflicts (allNodes_table s ! cur) + get_2 iv) \<and>
   (written s (generateChild env iv cur loc s) a \<longrightarrow>
      num_of_conflicts (allNodes_table (generateChild env iv cur loc s) ! a) =
        num_of_conflicts (allNodes_table s ! cur) +
        get_2 iv * (max (timestep (allNodes_table s ! cur) + 1) (get_0 iv) -
                    timestep (allNodes_table s ! cur)))"
proof (intro conjI impI)
  assume w: "written s (generateChildToFocal env iv cur loc h s) a"
  from generateChildToFocal_table [of env iv cur loc h s] w
  show "num_of_conflicts (allNodes_table (generateChildToFocal env iv cur loc h s) ! a) =
          num_of_conflicts (allNodes_table s ! cur) + get_2 iv"
    by (auto simp: written_def nth_append nth_list_update generateChildToFocal_next_fields
             split: if_splits)
next
  assume w: "written s (generateChild env iv cur loc s) a"
  from generateChild_table [of env iv cur loc s] w
  show "num_of_conflicts (allNodes_table (generateChild env iv cur loc s) ! a) =
          num_of_conflicts (allNodes_table s ! cur) +
          get_2 iv * (max (timestep (allNodes_table s ! cur) + 1) (get_0 iv) -
                      timestep (allNodes_table s ! cur))"
    by (auto simp: written_def nth_append nth_list_update generateChild_next_fields
             split: if_splits)
qed

text \<open>
  An instance in the corridor: node 1 (time 1, no conflict) has just been popped and its
  wait child arrives at time 3 through the interval \<open>(3, 5, 1)\<close>.
\<close>

theorem child_conflict_counts_witness:
  "written corridor_popped (generateChildToFocal corridor_env (3, 5, 1) 1 1 2 corridor_popped) 2 \<and>
   num_of_conflicts
     (allNodes_table (generateChildToFocal corridor_env (3, 5, 1) 1 1 2 corridor_popped) ! 2) = 1 \<and>
   written corridor_popped (generateChild corridor_env (3, 5, 1) 1 1 corridor_popped) 2 \<and>
   num_of_conflicts
     (allNodes_table (generateChild corridor_env (3, 5, 1) 1 1 corridor_popped) ! 2) = 2"
proof -
  have wA: "written corridor_popped
              (generateChildToFocal corridor_env (3, 5, 1) 1 1 2 corridor_popped) 2"
    by code_simp
  have wB: "written corridor_popped (generateChild corridor_env (3, 5, 1) 1 1 corridor_popped) 2"
    by code_simp
  have v: "num_of_conflicts (allNodes_table corridor_popped ! 1) = 0"
          "timestep (allNodes_table corridor_popped ! 1) = 1"
    by code_simp+
  from child_conflict_counts [of corridor_popped corridor_env "(3, 5, 1)" 1 1 2 2] wA wB v
  show ?thesis
    by (simp add: get_0_def get_2_def)
qed

text \<open>
  Claim C5 as stated fails. In the corridor, the second round of either search expands
  node 1 (time 1, no conflict); its wait child, node 3, arrives at time 3 through the
  interval \<open>(3, 5, 1)\<close>, two steps later. Mode A gives the child 1 conflict (the claim: 2),
  mode B gives it 2 conflicts (the claim: 1).
\<close>

theorem child_conflict_counts_counterexample:
  "timestep (allNodes_table (snd (findPath_rounds 2 corridor_env 3 (0, 2, 0)
      (findPath_start corridor_env idle_SIPP))) ! 1) = 1 \<and>
   num_of_conflicts (allNodes_table (snd (findPath_rounds 2 corridor_env 3 (0, 2, 0)
      (findPath_start corridor_env idle_SIPP))) ! 1) = 0 \<and>
   parent (allNodes_table (snd (findPath_rounds 2 corridor_env 3 (0, 2, 0)
      (findPath_start corridor_env idle_SIPP))) ! 3) = Some 1 \<and>
   timestep (allNodes_table (snd (findPath_rounds 2 corridor_env 3 (0, 2, 0)
      (findPath_start corridor_env idle_SIPP))) ! 3) = 3 \<and>
   interval (allNodes_table (snd (findPath_rounds 2 corridor_env 3 (0, 2, 0)
      (findPath_start corridor_env idle_SIPP))) ! 3) = (3, 5, 1) \<and>
   num_of_conflicts (allNodes_table (snd (findPath_rounds 2 corridor_env 3 (0, 2, 0)
      (findPath_start corridor_env idle_SIPP))) ! 3) = 1 \<and>
   timestep (allNodes_table (snd (findSuboptimalPath_rounds 2 corridor_env 3 (0, 2, 0)
      (findSuboptimalPath_start corridor_env 0 1 idle_SIPP))) ! 1) = 1 \<and>
   num_of_conflicts (allNodes_table (snd (findSuboptimalPath_rounds 2 corridor_env 3 (0, 2, 0)
      (findSuboptimalPath_start corridor_env 0 1 idle_SIPP))) ! 1) = 0 \<and>
   parent (allNodes_table (snd (findSuboptimalPath_rounds 2 corridor_env 3 (0, 2, 0)
      (findSuboptimalPath_start corridor_env 0 1 idle_SIPP))) ! 3) = Some 1 \<and>
   timestep (allNodes_table (snd (findSuboptimalPath_rounds 2 corridor_env 3 (0, 2, 0)
      (findSuboptimalPath_start corridor_env 0 1 idle_SIPP))) ! 3) = 3 \<and>
   interval (allNodes_table (snd (findSuboptimalPath_rounds 2 corridor_env 3 (0, 2, 0)
      (findSuboptimalPath_start corridor_env 0 1 idle_SIPP))) ! 3) = (3, 5, 1) \<and>
   num_of_conflicts (allNodes_table (snd (findSuboptimalPath_rounds 2 corridor_env 3 (0, 2, 0)
      (findSuboptimalPath_start corridor_env 0 1 idle_SIPP))) ! 3) = 2"
  by code_simp

subsection \<open>Pruning by the length bound\<close>

lemma all_written_satisfy_refl: "all_written_satisfy P s s"
  by (auto simp: all_written_satisfy_def written_def inserted_def)

lemma all_written_satisfy_mono:
  "all_written_satisfy P s s' \<Longrightarrow> (\<And>n. P n \<Longrightarrow> Q n) \<Longrightarrow> all_written_satisfy Q s s'"
  by (simp add: all_written_satisfy_def)

lemma all_written_satisfy_trans:
  assumes 1: "all_written_satisfy P s s'" and 2: "all_written_satisfy P s' s''"
  shows "all_written_satisfy P s s''"
proof -
  from 1 2 have len: "length (allNodes_table s) \<le> length (allNodes_table s'')"
    by (simp add: all_written_satisfy_def)
  have "a < length (allNodes_table s'') \<and> P (allNodes_table s'' ! a)"
    if a: "written s s'' a \<or> inserted s s'' a" for a
  proof (cases "written s' s'' a \<or> inserted s' s'' a")
    case True
    with 2 show ?thesis
      unfolding all_written_satisfy_def by blast
  next
    case False
    with a have "written s s' a \<or> inserted s s' a"
      by (auto simp: written_def inserted_def)
    with 1 have b: "a < length (allNodes_table s')" "P (allNodes_table s' ! a)"
      unfolding all_written_satisfy_def by blast+
    from 2 have "length (allNodes_table s') \<le> length (allNodes_table s'')"
      by (simp add: all_written_satisfy_def)
    with b False show ?thesis
      by (auto simp: written_def)
  qed
  with len show ?thesis
    unfolding all_written_satisfy_def by blast
qed

lemma generateChild_next_FVal:
  "getFVal (generateChild_next env iv cur loc s) =
     max (timestep (allNodes_table s ! cur) + 1) (get_0 iv) +
     max (my_heuristic env loc)
       (getFVal (allNodes_table s ! cur) - max (timestep (allNodes_table s ! cur) + 1) (get_0 iv))"
  by (simp add: getFVal_def generateChild_next_fields)

text \<open>
  \<open>generateChild\<close> leaves the planner as it is when the candidate's \<open>f\<close> exceeds the bound.
\<close>

lemma generateChild_pruned:
  "length_max env < getFVal (generateChild_next env iv cur loc s) \<Longrightarrow>
   generateChild env iv cur loc s = s"
  by (simp add: generateChild_next_FVal generateChild_def Let_def)

lemma generateChild_bounded:
  "all_written_satisfy (\<lambda>n. getFVal n \<le> length_max env) s (generateChild env iv cur loc s)"
proof (cases "length_max env < getFVal (generateChild_next env iv cur loc s)")
  case True
  then show ?thesis
    by (simp add: generateChild_pruned all_written_satisfy_refl)
next
  case fits: False
  define nxt where "nxt = generateChild_next env iv cur loc s"
  define ns where "ns = allNodes_table s"
  from fits have f: "getFVal nxt \<le> length_max env"
    by (simp add: nxt_def)
  from fits have fits': "\<not> length_max env <
     max (timestep (allNodes_table s ! cur) + 1) (get_0 iv) +
     max (my_heuristic env loc)
       (getFVal (allNodes_table s ! cur) - max (timestep (allNodes_table s ! cur) + 1) (get_0 iv))"
    by (simp add: generateChild_next_FVal)
  show ?thesis
  proof (cases "allNodes_find ns nxt")
    case None
    with fits' have "generateChild env iv cur loc s =
        pushNode env (length ns) (s\<lparr>allNodes_table := ns @ [nxt]\<rparr>)"
      by (simp add: generateChild_def Let_def nxt_def ns_def)
    with f show ?thesis
      by (auto simp: all_written_satisfy_def written_def inserted_def pushNode_def Let_def
                     ns_def nth_append split: if_splits)
  next
    case (Some e)
    then have e: "e < length ns"
      by (simp add: allNodes_find_Some)
    let ?ex = "ns ! e"
    show ?thesis
    proof (cases "timestep ?ex > timestep nxt \<or>
                  (timestep ?ex = timestep nxt \<and> num_of_conflicts ?ex > num_of_conflicts nxt)")
      case False
      with Some fits' have "generateChild env iv cur loc s = s"
        by (auto simp: generateChild_def Let_def nxt_def ns_def)
      then show ?thesis
        by (simp add: all_written_satisfy_refl)
    next
      case better: True
      show ?thesis
      proof (cases "in_openlist ?ex")
        case False
        with Some better fits' have "generateChild env iv cur loc s =
            pushNode env e (s\<lparr>allNodes_table := ns[e := copy ?ex nxt]\<rparr>)"
          by (simp add: generateChild_def Let_def nxt_def ns_def)
        with f e show ?thesis
          by (auto simp: all_written_satisfy_def written_def inserted_def pushNode_def Let_def
                         ns_def nth_list_update split: if_splits)
      next
        case True
        with Some better fits' have
          "generateChild env iv cur loc s = s\<lparr>allNodes_table := ns[e := copy ?ex nxt]\<rparr> \<or>
           generateChild env iv cur loc s =
             s\<lparr>allNodes_table := ns[e := copy ?ex nxt], focal_list := focal_list s @ [e]\<rparr>"
          by (simp add: generateChild_def Let_def nxt_def ns_def)
        with f e show ?thesis
          by (auto simp: all_written_satisfy_def written_def inserted_def
                         ns_def nth_list_update split: if_splits)
      qed
    qed
  qed
qed

lemma findSuboptimalPath_intervals_bounded:
  "all_written_satisfy (\<lambda>n. getFVal n \<le> length_max env) s
     (findSuboptimalPath_intervals env cur loc ivs s)"
proof (induction ivs arbitrary: s)
  case Nil
  show ?case by (simp add: all_written_satisfy_refl)
next
  case (Cons iv ivs)
  from generateChild_bounded Cons.IH show ?case
    by (simp only: findSuboptimalPath_intervals.simps) (rule all_written_satisfy_trans)
qed

lemma findSuboptimalPath_neighbors_bounded:
  "all_written_satisfy (\<lambda>n. getFVal n \<le> length_max env) s
     (findSuboptimalPath_neighbors env cur nbrs s)"
proof (induction nbrs arbitrary: s)
  case Nil
  show ?case by (simp add: all_written_satisfy_refl)
next
  case (Cons loc nbrs)
  from findSuboptimalPath_intervals_bounded Cons.IH show ?case
    by (simp only: findSuboptimalPath_neighbors.simps Let_def) (rule all_written_satisfy_trans)
qed

lemma findSuboptimalPath_wait_bounded:
  "all_written_satisfy (\<lambda>n. getFVal n \<le> length_max env) s
     (snd (findSuboptimalPath_wait env cur iv s))"
  by (simp add: findSuboptimalPath_wait_def Let_def all_written_satisfy_refl generateChild_bounded
           split: prod.split)

lemma findSuboptimalPath_expand_bounded:
  "all_written_satisfy (\<lambda>n. getFVal n \<le> length_max env) s
     (snd (findSuboptimalPath_expand env cur iv s))"
  unfolding findSuboptimalPath_expand_def
  by (rule all_written_satisfy_trans [OF findSuboptimalPath_neighbors_bounded
        findSuboptimalPath_wait_bounded])

lemma generateChildToFocal_bounded:
  assumes "max (timestep (allNodes_table s ! cur) + 1) (get_0 iv) + b \<le> length_max env"
  shows "all_written_satisfy (\<lambda>n. location n = loc \<and> timestep n + b \<le> length_max env) s
           (generateChildToFocal env iv cur loc h s)"
proof -
  define nxt where "nxt = generateChildToFocal_next env iv cur loc h s"
  define ns where "ns = allNodes_table s"
  from assms have f: "location nxt = loc" "timestep nxt + b \<le> length_max env"
    by (simp_all add: nxt_def generateChildToFocal_next_fields)
  show ?thesis
  proof (cases "allNodes_find ns nxt")
    case None
    then have "generateChildToFocal env iv cur loc h s =
        s\<lparr>focal_list := focal_list s @ [length ns], num_generated := num_generated s + 1,
          allNodes_table := ns @ [nxt\<lparr>in_openlist := True\<rparr>]\<rparr>"
      by (simp add: generateChildToFocal_def Let_def nxt_def ns_def)
    with f show ?thesis
      by (auto simp: all_written_satisfy_def written_def inserted_def ns_def nth_append
               split: if_splits)
  next
    case (Some e)
    then have e: "e < length ns"
      by (simp add: allNodes_find_Some)
    let ?ex = "ns ! e"
    from Some have
      "generateChildToFocal env iv cur loc h s = s \<or>
       generateChildToFocal env iv cur loc h s =
         s\<lparr>allNodes_table := ns[e := (copy ?ex nxt)\<lparr>in_openlist := True\<rparr>],
           focal_list := focal_list s @ [e]\<rparr> \<or>
       generateChildToFocal env iv cur loc h s = s\<lparr>allNodes_table := ns[e := copy ?ex nxt]\<rparr>"
      by (auto simp: generateChildToFocal_def Let_def nxt_def ns_def)
    with f e show ?thesis
      by (auto simp: all_written_satisfy_def written_def inserted_def
                     ns_def nth_list_update split: if_splits)
  qed
qed

lemma findPath_intervals_bounded:
  "all_written_satisfy (\<lambda>n. location n = loc \<and> timestep n + b \<le> length_max env) s
     (findPath_intervals env cur loc b ivs s)"
proof (induction ivs arbitrary: s)
  case Nil
  show ?case by (simp add: all_written_satisfy_refl)
next
  case (Cons iv ivs)
  show ?case
  proof (cases "max (timestep (allNodes_table s ! cur) + 1) (get_0 iv) + b > length_max env")
    case True
    then show ?thesis
      by (simp add: all_written_satisfy_refl)
  next
    case False
    then have "all_written_satisfy (\<lambda>n. location n = loc \<and> timestep n + b \<le> length_max env) s
                 (generateChildToFocal env iv cur loc b s)"
      by (intro generateChildToFocal_bounded) simp
    from all_written_satisfy_trans [OF this Cons.IH] False show ?thesis
      by (simp add: Let_def)
  qed
qed

lemma findPath_neighbors_bounded:
  "all_written_satisfy (\<lambda>n. timestep n + my_heuristic env (location n) \<le> length_max env) s
     (findPath_neighbors env cur nbrs s)"
proof (induction nbrs arbitrary: s)
  case Nil
  show ?case by (simp add: all_written_satisfy_refl)
next
  case (Cons loc nbrs)
  have "all_written_satisfy (\<lambda>n. timestep n + my_heuristic env (location n) \<le> length_max env) s
          (findPath_intervals env cur loc (my_heuristic env loc)
             (get_safe_intervals env (location (allNodes_table s ! cur)) loc
                (timestep (allNodes_table s ! cur) + 1)
                (get_1 (interval (allNodes_table s ! cur)) + 1)) s)"
    by (rule all_written_satisfy_mono [OF findPath_intervals_bounded]) simp
  from all_written_satisfy_trans [OF this Cons.IH] show ?case
    by (simp add: Let_def)
qed

text \<open>
  Claim C8, as the code has it. In mode B, every node that an expansion inserts into OPEN or
  FOCAL (a move child or the wait child) has \<open>g + h \<le> length_max\<close>, with the path-max \<open>h\<close>,
  and a candidate over the bound leaves the planner unchanged. In mode A the test is made
  in the loop over the neighbours, on the arrival time plus the plain heuristic of the
  neighbour: every move child inserted into FOCAL has
  \<open>timestep + my_heuristic[location] \<le> length_max\<close>. (Nothing is said of the wait child of
  mode A, which the code does not test.)
\<close>

theorem inserted_children_bounded:
  "(inserted s (snd (findSuboptimalPath_expand env cur iv s)) a \<longrightarrow>
      getFVal (allNodes_table (snd (findSuboptimalPath_expand env cur iv s)) ! a) \<le> length_max env) \<and>
   (length_max env < getFVal (generateChild_next env iv cur loc s) \<longrightarrow>
      generateChild env iv cur loc s = s) \<and>
   (inserted s (findPath_neighbors env cur nbrs s) a \<longrightarrow>
      timestep (allNodes_table (findPath_neighbors env cur nbrs s) ! a) +
      my_heuristic env (location (allNodes_table (findPath_neighbors env cur nbrs s) ! a))
        \<le> length_max env)"
  using findSuboptimalPath_expand_bounded [of env s cur iv]
        findPath_neighbors_bounded [of env s cur nbrs]
  by (simp add: all_written_satisfy_def generateChild_pruned)

theorem inserted_children_bounded_witness:
  "inserted corridor_popped
     (snd (findSuboptimalPath_expand corridor_env 1 (4, 1000, 0) corridor_popped)) 2 \<and>
   getFVal (allNodes_table
     (snd (findSuboptimalPath_expand corridor_env 1 (4, 1000, 0) corridor_popped)) ! 2)
     \<le> length_max corridor_env \<and>
   length_max corridor_env < getFVal (generateChild_next corridor_env (4, 1000, 0) 1 0 corridor_popped) \<and>
   generateChild corridor_env (4, 1000, 0) 1 0 corridor_popped = corridor_popped \<and>
   inserted corridor_popped (findPath_neighbors corridor_env 1 [0] corridor_popped) 2 \<and>
   timestep (allNodes_table (findPath_neighbors corridor_env 1 [0] corridor_popped) ! 2) +
   my_heuristic corridor_env
     (location (allNodes_table (findPath_neighbors corridor_env 1 [0] corridor_popped) ! 2))
     \<le> length_max corridor_env"
proof -
  have h1: "inserted corridor_popped
              (snd (findSuboptimalPath_expand corridor_env 1 (4, 1000, 0) corridor_popped)) 2"
    by code_simp
  have h2: "length_max corridor_env <
              getFVal (generateChild_next corridor_env (4, 1000, 0) 1 0 corridor_popped)"
    by code_simp
  have h3: "inserted corridor_popped (findPath_neighbors corridor_env 1 [0] corridor_popped) 2"
    by code_simp
  from inserted_children_bounded [of corridor_popped corridor_env 1 "(4, 1000, 0)" 2 0 "[0]"]
       h1 h2 h3
  show ?thesis by simp
qed

text \<open>
  Claim C8 as stated fails in mode A. In the corridor (\<open>length_max = 4\<close>), the second round
  of \<open>findPath\<close> expands node 1 and inserts its wait child, node 3, into FOCAL with
  \<open>g + h = 3 + 2 = 5\<close>.
\<close>

theorem inserted_children_bounded_counterexample:
  "snd (findPath_expand corridor_env 1 (0, 2, 0) corridor_popped) =
     snd (findPath_rounds 2 corridor_env 3 (0, 2, 0) (findPath_start corridor_env idle_SIPP)) \<and>
   inserted corridor_popped (snd (findPath_expand corridor_env 1 (0, 2, 0) corridor_popped)) 3 \<and>
   g_val (allNodes_table (snd (findPath_expand corridor_env 1 (0, 2, 0) corridor_popped)) ! 3) = 3 \<and>
   h_val (allNodes_table (snd (findPath_expand corridor_env 1 (0, 2, 0) corridor_popped)) ! 3) = 2 \<and>
   length_max corridor_env = 4"
  by code_simp

subsection \<open>Path reconstruction on a search tree\<close>

lemma fill_waits_result:
  "0 \<le> t \<Longrightarrow> tend \<le> int (length path) \<Longrightarrow>
   \<exists>p'. fill_waits t tend loc path = Inr p' \<and> length p' = length path \<and>
        (\<forall>i<length path. p' ! i = (if t \<le> int i \<and> int i < tend then loc else path ! i))"
proof (induction t tend loc path rule: fill_waits.induct)
  case (1 t tend loc path)
  show ?case
  proof (cases "t < tend")
    case False
    then show ?thesis
      by (subst fill_waits.simps) auto
  next
    case True
    with "1.prems" have r: "0 \<le> t \<and> nat t < length path"
      by linarith
    from "1.IH" [OF True r] "1.prems"
    obtain p' where p': "fill_waits (t + 1) tend loc (path[nat t := loc]) = Inr p'"
      "length p' = length path"
      "\<forall>i<length path. p' ! i =
         (if t + 1 \<le> int i \<and> int i < tend then loc else path[nat t := loc] ! i)"
      by auto
    have "\<forall>i<length path. p' ! i = (if t \<le> int i \<and> int i < tend then loc else path ! i)"
    proof (intro allI impI)
      fix i assume i: "i < length path"
      show "p' ! i = (if t \<le> int i \<and> int i < tend then loc else path ! i)"
      proof (cases "int i = t")
        case True
        with i p'(3) r \<open>t < tend\<close> show ?thesis
          by (auto simp: nth_list_update)
      next
        case False
        then have "nat t \<noteq> i" using r by linarith
        with i p'(3) False show ?thesis
          by (auto simp: nth_list_update)
      qed
    qed
    with p' True r show ?thesis
      by (subst fill_waits.simps) simp
  qed
qed

lemma on_chain_root:
  "on_chain ns g c \<Longrightarrow> parent (ns ! g) = None \<Longrightarrow> c = g"
  by (induction rule: on_chain.induct) auto

lemma on_chain_cases:
  "on_chain ns g c \<Longrightarrow> parent (ns ! g) = Some pr \<Longrightarrow> c = g \<or> on_chain ns pr c"
proof (induction rule: on_chain.induct)
  case on_chain_self
  then show ?case by simp
next
  case (on_chain_parent c p)
  then show ?case
    by (auto intro: on_chain.intros)
qed

lemma search_tree_root:
  "search_tree env ns \<Longrightarrow>
   0 < length ns \<and> parent (ns ! 0) = None \<and> timestep (ns ! 0) = 0 \<and>
   location (ns ! 0) = start_location env \<and> \<not> is_goal (ns ! 0)"
  by (simp add: search_tree_def)

lemma search_tree_nonneg:
  "search_tree env ns \<Longrightarrow> a < length ns \<Longrightarrow> 0 \<le> timestep (ns ! a)"
  by (simp add: search_tree_def)

lemma search_tree_no_parent:
  "search_tree env ns \<Longrightarrow> a < length ns \<Longrightarrow> parent (ns ! a) = None \<Longrightarrow> a = 0"
  by (cases "a = 0") (auto simp: search_tree_def)

lemma search_tree_link:
  assumes "search_tree env ns" "a < length ns" "parent (ns ! a) = Some p"
  shows "p < length ns \<and> \<not> is_goal (ns ! p) \<and> link env (ns ! p) (ns ! a)"
proof -
  from assms have "0 < a"
    by (cases "a = 0") (auto simp: search_tree_def)
  with assms show ?thesis
    by (auto simp: search_tree_def)
qed

lemma updatePath_walk_result:
  assumes tree: "search_tree env ns"
  shows "cur < length ns \<Longrightarrow> \<not> is_goal (ns ! cur) \<Longrightarrow> nat (timestep (ns ! cur)) < length path \<Longrightarrow>
     \<exists>p'. updatePath_walk ns cur path = Some (Inr p') \<and> length p' = length path \<and>
          (\<forall>i<length path. nat (timestep (ns ! cur)) < i \<longrightarrow> p' ! i = path ! i) \<and>
          p' ! 0 = start_location env \<and>
          p' ! nat (timestep (ns ! cur)) = location (ns ! cur) \<and>
          (\<forall>i. i < nat (timestep (ns ! cur)) \<longrightarrow> stay_or_move env (p' ! i) (p' ! Suc i)) \<and>
          (\<forall>c. on_chain ns cur c \<longrightarrow>
               p' ! nat (timestep (ns ! c)) = location (ns ! c) \<and>
               (parent (ns ! c) = None \<longrightarrow> timestep (ns ! c) = 0) \<and>
               (\<forall>pr t. parent (ns ! c) = Some pr \<longrightarrow> timestep (ns ! pr) < t \<longrightarrow>
                        t < timestep (ns ! c) \<longrightarrow> p' ! nat t = location (ns ! pr)))"
proof (induction "nat (timestep (ns ! cur))" arbitrary: cur path rule: less_induct)
  case less
  define T where "T = timestep (ns ! cur)"
  have T0: "0 \<le> T"
    using tree less.prems(1) by (simp add: T_def search_tree_nonneg)
  have Tlen: "nat T < length path"
    using less.prems(3) by (simp add: T_def)
  show ?case
  proof (cases "parent (ns ! cur)")
    case None
    with tree less.prems(1) have cur0: "cur = 0"
      by (simp add: search_tree_no_parent)
    with tree have root: "timestep (ns ! cur) = 0" "location (ns ! cur) = start_location env"
      by (simp_all add: search_tree_root)
    from Tlen have ne: "path \<noteq> []"
      by auto
    have walk: "updatePath_walk ns cur path = Some (Inr (path[0 := location (ns ! cur)]))"
      using None root ne by (subst updatePath_walk.simps) simp
    have chain: "c = cur" if "on_chain ns cur c" for c
      using that None by (rule on_chain_root)
    have 3: "(path[0 := location (ns ! cur)]) ! nat (timestep (ns ! c)) = location (ns ! c) \<and>
             (parent (ns ! c) = None \<longrightarrow> timestep (ns ! c) = 0) \<and>
             (\<forall>pr t. parent (ns ! c) = Some pr \<longrightarrow> timestep (ns ! pr) < t \<longrightarrow>
                      t < timestep (ns ! c) \<longrightarrow>
                      (path[0 := location (ns ! cur)]) ! nat t = location (ns ! pr))"
      if "on_chain ns cur c" for c
      using chain [OF that] root ne None by simp
    show ?thesis
      using walk root ne 3
      by (intro exI [of _ "path[0 := location (ns ! cur)]"]) simp
  next
    case (Some prev)
    from search_tree_link [OF tree less.prems(1) Some] less.prems(2)
    have prev: "prev < length ns" "\<not> is_goal (ns ! prev)"
      and lt: "timestep (ns ! prev) < T"
      and mv: "stay_or_move env (location (ns ! prev)) (location (ns ! cur))"
      by (auto simp: link_def T_def stay_or_move_def)
    define tp where "tp = timestep (ns ! prev)"
    have tp0: "0 \<le> tp"
      using tree prev(1) by (simp add: tp_def search_tree_nonneg)
    have tpT: "tp < T"
      using lt by (simp add: tp_def)
    have "0 \<le> tp + 1" "T \<le> int (length path)"
      using tp0 Tlen T0 by linarith+
    from fill_waits_result [OF this, of "location (ns ! prev)"]
    obtain p1 where p1: "fill_waits (tp + 1) T (location (ns ! prev)) path = Inr p1"
      "length p1 = length path"
      "\<forall>i<length path. p1 ! i = (if tp + 1 \<le> int i \<and> int i < T then location (ns ! prev)
                                   else path ! i)"
      by blast
    define p2 where "p2 = p1[nat T := location (ns ! cur)]"
    have p2len: "length p2 = length path"
      by (simp add: p2_def p1(2))
    have p2nth: "p2 ! i = (if i = nat T then location (ns ! cur)
                           else if tp + 1 \<le> int i \<and> int i < T then location (ns ! prev)
                           else path ! i)" if "i < length path" for i
      using that p1(2,3) by (simp add: p2_def nth_list_update)
    have step: "updatePath_walk ns cur path = updatePath_walk ns prev p2"
      using Some p1(1,2) T0 Tlen
      by (subst updatePath_walk.simps) (simp add: T_def [symmetric] tp_def [symmetric] p2_def)
    have m: "nat (timestep (ns ! prev)) < nat (timestep (ns ! cur))"
      using tpT tp0 by (simp add: tp_def T_def)
    have l: "nat (timestep (ns ! prev)) < length p2"
      using tpT tp0 Tlen p2len by (simp add: tp_def)
    from less.hyps [OF m prev l]
    obtain p' where walk: "updatePath_walk ns prev p2 = Some (Inr p')"
      and len: "length p' = length p2"
      and above: "\<forall>i<length p2. nat tp < i \<longrightarrow> p' ! i = p2 ! i"
      and start: "p' ! 0 = start_location env"
      and at_tp: "p' ! nat tp = location (ns ! prev)"
      and adj: "\<forall>i. i < nat tp \<longrightarrow> stay_or_move env (p' ! i) (p' ! Suc i)"
      and chain: "\<forall>c. on_chain ns prev c \<longrightarrow>
               p' ! nat (timestep (ns ! c)) = location (ns ! c) \<and>
               (parent (ns ! c) = None \<longrightarrow> timestep (ns ! c) = 0) \<and>
               (\<forall>pr t. parent (ns ! c) = Some pr \<longrightarrow> timestep (ns ! pr) < t \<longrightarrow>
                        t < timestep (ns ! c) \<longrightarrow> p' ! nat t = location (ns ! pr))"
      unfolding tp_def by blast
    have nth: "p' ! i = (if i = nat T then location (ns ! cur)
                         else if tp + 1 \<le> int i \<and> int i < T then location (ns ! prev)
                         else path ! i)" if "i < length path" "nat tp < i" for i
      using that above p2len p2nth by simp
    have seg: "p' ! i = location (ns ! prev)" if "nat tp \<le> i" "i < nat T" for i
    proof (cases "i = nat tp")
      case True
      with at_tp show ?thesis by simp
    next
      case False
      with that Tlen have "i < length path" "nat tp < i" "tp + 1 \<le> int i" "int i < T" "i \<noteq> nat T"
        by linarith+
      with nth [of i] show ?thesis by simp
    qed
    have top: "p' ! nat T = location (ns ! cur)"
      using nth [of "nat T"] Tlen tpT tp0 by simp
    have 1: "\<forall>i<length path. nat T < i \<longrightarrow> p' ! i = path ! i"
    proof (intro allI impI)
      fix i assume i: "i < length path" "nat T < i"
      with tpT tp0 have "nat tp < i" "\<not> int i < T" "i \<noteq> nat T"
        by linarith+
      with nth [of i] i show "p' ! i = path ! i" by simp
    qed
    have 2: "\<forall>i. i < nat T \<longrightarrow> stay_or_move env (p' ! i) (p' ! Suc i)"
    proof (intro allI impI)
      fix i assume i: "i < nat T"
      show "stay_or_move env (p' ! i) (p' ! Suc i)"
      proof (cases "i < nat tp")
        case True
        with adj show ?thesis by simp
      next
        case False
        then have a: "p' ! i = location (ns ! prev)"
          using seg [of i] i by simp
        show ?thesis
        proof (cases "Suc i = nat T")
          case True
          with a top mv show ?thesis by simp
        next
          case False
          with i \<open>\<not> i < nat tp\<close> have "p' ! Suc i = location (ns ! prev)"
            using seg [of "Suc i"] by simp
          with a show ?thesis by (simp add: stay_or_move_def)
        qed
      qed
    qed
    have 3: "p' ! nat (timestep (ns ! c)) = location (ns ! c) \<and>
             (parent (ns ! c) = None \<longrightarrow> timestep (ns ! c) = 0) \<and>
             (\<forall>pr t. parent (ns ! c) = Some pr \<longrightarrow> timestep (ns ! pr) < t \<longrightarrow>
                      t < timestep (ns ! c) \<longrightarrow> p' ! nat t = location (ns ! pr))"
      if c: "on_chain ns cur c" for c
    proof -
      from on_chain_cases [OF c Some] show ?thesis
      proof
        assume "c = cur"
        moreover have "p' ! nat t = location (ns ! prev)" if "tp < t" "t < T" for t
          using seg [of "nat t"] that tp0 by simp
        ultimately show ?thesis
          using top Some by (simp add: T_def tp_def)
      next
        assume "on_chain ns prev c"
        with chain show ?thesis by blast
      qed
    qed
    show ?thesis
      using step walk len p2len 1 start top 2 3
      by (intro exI [of _ p']) (simp add: T_def)
  qed
qed

text \<open>
  \<open>updatePath\<close> on a search tree, from a node that is not a virtual goal node: the walk
  ends, and the path it returns starts at the start cell, ends at the node's cell, has one
  entry per time step and is made of waits and moves along the parent chain.
\<close>

lemma updatePath_result:
  assumes "search_tree env ns" "g < length ns" "\<not> is_goal (ns ! g)"
  shows "\<exists>p. updatePath ns g = Some (Inr p) \<and> length p = nat (timestep (ns ! g)) + 1 \<and>
          p ! 0 = start_location env \<and> last p = location (ns ! g) \<and>
          (\<forall>i. Suc i < length p \<longrightarrow> stay_or_move env (p ! i) (p ! Suc i)) \<and>
          (\<forall>c. on_chain ns g c \<longrightarrow>
               p ! nat (timestep (ns ! c)) = location (ns ! c) \<and>
               (parent (ns ! c) = None \<longrightarrow> timestep (ns ! c) = 0) \<and>
               (\<forall>pr t. parent (ns ! c) = Some pr \<longrightarrow> timestep (ns ! pr) < t \<longrightarrow>
                        t < timestep (ns ! c) \<longrightarrow> p ! nat t = location (ns ! pr)))"
proof -
  define T where "T = timestep (ns ! g)"
  have T0: "0 \<le> T"
    using assms by (simp add: T_def search_tree_nonneg)
  define path0 :: Path where "path0 = replicate (nat (T + 1)) (- 1)"
  have l0: "nat (timestep (ns ! g)) < length path0"
    using T0 by (simp add: path0_def T_def)
  from updatePath_walk_result [OF assms l0]
  obtain p where p: "updatePath_walk ns g path0 = Some (Inr p)" "length p = length path0"
    "p ! 0 = start_location env" "p ! nat (timestep (ns ! g)) = location (ns ! g)"
    "\<forall>i. i < nat (timestep (ns ! g)) \<longrightarrow> stay_or_move env (p ! i) (p ! Suc i)"
    "\<forall>c. on_chain ns g c \<longrightarrow>
               p ! nat (timestep (ns ! c)) = location (ns ! c) \<and>
               (parent (ns ! c) = None \<longrightarrow> timestep (ns ! c) = 0) \<and>
               (\<forall>pr t. parent (ns ! c) = Some pr \<longrightarrow> timestep (ns ! pr) < t \<longrightarrow>
                        t < timestep (ns ! c) \<longrightarrow> p ! nat t = location (ns ! pr))"
    by blast
  have len: "length p = nat T + 1"
    using p(2) T0 by (simp add: path0_def nat_add_distrib)
  then have ne: "p \<noteq> []"
    by auto
  have "updatePath ns g = Some (Inr p)"
    using p(1) T0 by (simp add: updatePath_def T_def [symmetric] path0_def)
  moreover have "last p = location (ns ! g)"
    using p(4) len ne by (simp add: last_conv_nth T_def)
  ultimately show ?thesis
    using p(3,5,6) len by (intro exI [of _ p]) (simp add: T_def)
qed

subsection \<open>The search tree is kept by mode A\<close>

lemma search_tree_append:
  assumes t: "search_tree env ns" and c: "cur < length ns" "\<not> is_goal (ns ! cur)"
    and n: "parent n = Some cur" "link env (ns ! cur) n" "0 \<le> timestep n"
  shows "search_tree env (ns @ [n])"
  unfolding search_tree_def
proof (intro conjI allI impI)
  from t show "ns @ [n] \<noteq> []" by simp
  from t have l: "0 < length ns" by (simp add: search_tree_def)
  with t show "parent ((ns @ [n]) ! 0) = None" "timestep ((ns @ [n]) ! 0) = 0"
    "location ((ns @ [n]) ! 0) = start_location env" "\<not> is_goal ((ns @ [n]) ! 0)"
    by (simp_all add: search_tree_def nth_append)
next
  fix a assume "a < length (ns @ [n])"
  with t n(3) show "0 \<le> timestep ((ns @ [n]) ! a)"
    by (cases "a < length ns") (auto simp: search_tree_def nth_append)
next
  fix a assume a: "a < length (ns @ [n])" "0 < a"
  show "\<exists>p<length (ns @ [n]). parent ((ns @ [n]) ! a) = Some p \<and> \<not> is_goal ((ns @ [n]) ! p) \<and>
          link env ((ns @ [n]) ! p) ((ns @ [n]) ! a)"
  proof (cases "a < length ns")
    case True
    with t a obtain p where "p < length ns" "parent (ns ! a) = Some p" "\<not> is_goal (ns ! p)"
      "link env (ns ! p) (ns ! a)"
      by (auto simp: search_tree_def)
    with True show ?thesis
      by (intro exI [of _ p]) (simp add: nth_append)
  next
    case False
    with a have "a = length ns" by simp
    with c n show ?thesis
      by (intro exI [of _ cur]) (simp add: nth_append)
  qed
qed

lemma search_tree_overwrite:
  assumes t: "search_tree env ns" and e: "e < length ns" "e \<noteq> 0"
    and c: "cur < length ns" "cur \<noteq> e" "\<not> is_goal (ns ! cur)"
    and n: "parent n = Some cur" "link env (ns ! cur) n" "0 \<le> timestep n"
    and k: "timestep n \<le> timestep (ns ! e)" "location n = location (ns ! e)"
           "get_0 (interval n) = get_0 (interval (ns ! e))" "is_goal n = is_goal (ns ! e)"
  shows "search_tree env (ns[e := n])"
  unfolding search_tree_def
proof (intro conjI allI impI)
  from t show "ns[e := n] \<noteq> []" by (simp add: search_tree_def)
  from t e show "parent (ns[e := n] ! 0) = None" "timestep (ns[e := n] ! 0) = 0"
    "location (ns[e := n] ! 0) = start_location env" "\<not> is_goal (ns[e := n] ! 0)"
    by (simp_all add: search_tree_def)
next
  fix a assume "a < length (ns[e := n])"
  with t n(3) show "0 \<le> timestep (ns[e := n] ! a)"
    by (cases "a = e") (auto simp: search_tree_def)
next
  fix a assume a: "a < length (ns[e := n])" "0 < a"
  show "\<exists>p<length (ns[e := n]). parent (ns[e := n] ! a) = Some p \<and> \<not> is_goal (ns[e := n] ! p) \<and>
          link env (ns[e := n] ! p) (ns[e := n] ! a)"
  proof (cases "a = e")
    case True
    with e c n show ?thesis
      by (intro exI [of _ cur]) simp
  next
    case False
    from t a obtain p where p: "p < length ns" "parent (ns ! a) = Some p" "\<not> is_goal (ns ! p)"
      "link env (ns ! p) (ns ! a)"
      by (auto simp: search_tree_def)
    show ?thesis
    proof (cases "p = e")
      case pe: True
      from p pe k have "\<not> is_goal n" "link env n (ns ! a)"
        by (auto simp: link_def split: if_splits)
      with False p e pe show ?thesis
        by (intro exI [of _ p]) simp
    next
      case pe: False
      with False p show ?thesis
        by (intro exI [of _ p]) simp
    qed
  qed
qed

lemma search_tree_flag:
  assumes "search_tree env ns"
  shows "search_tree env (ns[a := (ns ! a)\<lparr>in_openlist := b\<rparr>])"
proof -
  let ?ns' = "ns[a := (ns ! a)\<lparr>in_openlist := b\<rparr>]"
  have f: "parent (?ns' ! i) = parent (ns ! i)" "timestep (?ns' ! i) = timestep (ns ! i)"
    "location (?ns' ! i) = location (ns ! i)" "is_goal (?ns' ! i) = is_goal (ns ! i)"
    "interval (?ns' ! i) = interval (ns ! i)" if "i < length ns" for i
    using that by (cases "i = a"; simp)+
  have l: "link env (?ns' ! p) (?ns' ! i) = link env (ns ! p) (ns ! i)"
    if "i < length ns" "p < length ns" for i p
    using that by (simp add: link_def f)
  from assms have r: "0 < length ns"
    by (simp add: search_tree_def)
  show ?thesis
    unfolding search_tree_def
  proof (intro conjI allI impI)
    from assms show "?ns' \<noteq> []" by (simp add: search_tree_def)
    from assms r show "parent (?ns' ! 0) = None" "timestep (?ns' ! 0) = 0"
      "location (?ns' ! 0) = start_location env" "\<not> is_goal (?ns' ! 0)"
      by (simp_all add: f search_tree_def)
  next
    fix i assume "i < length ?ns'"
    with assms show "0 \<le> timestep (?ns' ! i)"
      by (simp add: f search_tree_def)
  next
    fix i assume i: "i < length ?ns'" "0 < i"
    with assms obtain p where "p < length ns" "parent (ns ! i) = Some p" "\<not> is_goal (ns ! p)"
      "link env (ns ! p) (ns ! i)"
      by (auto simp: search_tree_def)
    with i show "\<exists>p<length ?ns'. parent (?ns' ! i) = Some p \<and> \<not> is_goal (?ns' ! p) \<and>
                   link env (?ns' ! p) (?ns' ! i)"
      by (intro exI [of _ p]) (simp add: f l)
  qed
qed

lemma generateChildToFocal_effect:
  fixes env iv cur loc h s
  defines "nxt \<equiv> generateChildToFocal_next env iv cur loc h s"
  defines "s' \<equiv> generateChildToFocal env iv cur loc h s"
  obtains (same) "s' = s"
  | (new) "allNodes_find (allNodes_table s) nxt = None"
      "s' = s\<lparr>focal_list := focal_list s @ [length (allNodes_table s)],
              num_generated := num_generated s + 1,
              allNodes_table := allNodes_table s @ [nxt\<lparr>in_openlist := True\<rparr>]\<rparr>"
  | (reopen) e where "e < length (allNodes_table s)" "eqnode (allNodes_table s ! e) nxt"
      "timestep nxt < timestep (allNodes_table s ! e) \<or>
       (timestep (allNodes_table s ! e) = timestep nxt \<and>
        num_of_conflicts nxt < num_of_conflicts (allNodes_table s ! e))"
      "\<not> in_openlist (allNodes_table s ! e)"
      "s' = s\<lparr>allNodes_table :=
                (allNodes_table s)[e := (copy (allNodes_table s ! e) nxt)\<lparr>in_openlist := True\<rparr>],
              focal_list := focal_list s @ [e]\<rparr>"
  | (update) e where "e < length (allNodes_table s)" "eqnode (allNodes_table s ! e) nxt"
      "timestep nxt < timestep (allNodes_table s ! e) \<or>
       (timestep (allNodes_table s ! e) = timestep nxt \<and>
        num_of_conflicts nxt < num_of_conflicts (allNodes_table s ! e))"
      "in_openlist (allNodes_table s ! e)"
      "s' = s\<lparr>allNodes_table := (allNodes_table s)[e := copy (allNodes_table s ! e) nxt]\<rparr>"
proof (cases "allNodes_find (allNodes_table s) nxt")
  case None
  then have "s' = s\<lparr>focal_list := focal_list s @ [length (allNodes_table s)],
              num_generated := num_generated s + 1,
              allNodes_table := allNodes_table s @ [nxt\<lparr>in_openlist := True\<rparr>]\<rparr>"
    by (simp add: s'_def generateChildToFocal_def nxt_def [symmetric])
  with None show ?thesis by (rule new)
next
  case (Some e)
  then have e: "e < length (allNodes_table s)" "eqnode (allNodes_table s ! e) nxt"
    by (simp_all add: allNodes_find_Some)
  let ?ex = "allNodes_table s ! e"
  show ?thesis
  proof (cases "timestep nxt < timestep ?ex \<or>
                (timestep ?ex = timestep nxt \<and> num_of_conflicts nxt < num_of_conflicts ?ex)")
    case False
    with Some have "s' = s"
      by (auto simp: s'_def generateChildToFocal_def nxt_def [symmetric] Let_def)
    then show ?thesis by (rule same)
  next
    case better: True
    show ?thesis
    proof (cases "in_openlist ?ex")
      case False
      with Some better have "s' = s\<lparr>allNodes_table :=
                (allNodes_table s)[e := (copy ?ex nxt)\<lparr>in_openlist := True\<rparr>],
              focal_list := focal_list s @ [e]\<rparr>"
        by (auto simp: s'_def generateChildToFocal_def nxt_def [symmetric] Let_def)
      with e better False show ?thesis by (rule reopen)
    next
      case True
      with Some better have "s' = s\<lparr>allNodes_table := (allNodes_table s)[e := copy ?ex nxt]\<rparr>"
        by (auto simp: s'_def generateChildToFocal_def nxt_def [symmetric] Let_def)
      with e better True show ?thesis by (rule update)
    qed
  qed
qed

lemma generateChildToFocal_inv:
  assumes inv: "findPath_inv env s" and c: "cur < length (allNodes_table s)"
    "\<not> is_goal (allNodes_table s ! cur)"
    and mv: "stay_or_move env (location (allNodes_table s ! cur)) loc"
  shows "findPath_inv env (generateChildToFocal env iv cur loc h s) \<and>
         allNodes_table (generateChildToFocal env iv cur loc h s) ! cur = allNodes_table s ! cur \<and>
         length (allNodes_table s) \<le> length (allNodes_table (generateChildToFocal env iv cur loc h s))"
proof -
  define nxt where "nxt = generateChildToFocal_next env iv cur loc h s"
  define ns where "ns = allNodes_table s"
  from inv have tree: "search_tree env ns" and foc: "\<forall>a\<in>set (focal_list s). a < length ns"
    by (simp_all add: findPath_inv_def ns_def)
  have t0: "0 \<le> timestep (ns ! cur)"
    using tree c(1) by (simp add: search_tree_nonneg ns_def)
  have nf: "parent nxt = Some cur" "\<not> is_goal nxt" "location nxt = loc"
    "timestep (ns ! cur) < timestep nxt"
    by (simp_all add: nxt_def generateChildToFocal_next_fields ns_def)
  have lk: "link env (ns ! cur) nxt"
    using nf mv by (auto simp: link_def stay_or_move_def ns_def)
  show ?thesis
  proof (cases rule: generateChildToFocal_effect [of env iv cur loc h s])
    case same
    with inv show ?thesis by simp
  next
    case new
    have "search_tree env (ns @ [nxt\<lparr>in_openlist := True\<rparr>])"
      using tree c nf lk t0
      by (intro search_tree_append [where cur = cur]) (auto simp: ns_def link_def)
    with new foc c show ?thesis
      by (auto simp: findPath_inv_def ns_def nxt_def nth_append)
  next
    case (reopen e)
    let ?n = "(copy (ns ! e) nxt)\<lparr>in_openlist := True\<rparr>"
    from reopen(3) nf(4) t0 have te: "timestep (ns ! cur) < timestep (ns ! e)" "0 < timestep (ns ! e)"
      by (auto simp: ns_def nxt_def)
    moreover from tree have "timestep (ns ! 0) = 0"
      by (simp add: search_tree_def)
    ultimately have ne: "cur \<noteq> e" "e \<noteq> 0"
      by (metis less_irrefl)+
    have "search_tree env (ns[e := ?n])"
      using tree reopen(1,2,3) c ne nf lk t0
      by (intro search_tree_overwrite [where cur = cur])
         (auto simp: ns_def nxt_def eqnode_def link_def)
    with reopen foc c ne show ?thesis
      by (auto simp: findPath_inv_def ns_def nxt_def)
  next
    case (update e)
    let ?n = "copy (ns ! e) nxt"
    from update(3) nf(4) t0 have te: "timestep (ns ! cur) < timestep (ns ! e)" "0 < timestep (ns ! e)"
      by (auto simp: ns_def nxt_def)
    moreover from tree have "timestep (ns ! 0) = 0"
      by (simp add: search_tree_def)
    ultimately have ne: "cur \<noteq> e" "e \<noteq> 0"
      by (metis less_irrefl)+
    have "search_tree env (ns[e := ?n])"
      using tree update(1,2,3) c ne nf lk t0
      by (intro search_tree_overwrite [where cur = cur])
         (auto simp: ns_def nxt_def eqnode_def link_def)
    with update foc c ne show ?thesis
      by (auto simp: findPath_inv_def ns_def nxt_def)
  qed
qed

lemma findPath_intervals_inv:
  assumes "findPath_inv env s" "cur < length (allNodes_table s)"
    "\<not> is_goal (allNodes_table s ! cur)"
    "stay_or_move env (location (allNodes_table s ! cur)) loc"
  shows "findPath_inv env (findPath_intervals env cur loc h ivs s) \<and>
         allNodes_table (findPath_intervals env cur loc h ivs s) ! cur = allNodes_table s ! cur \<and>
         length (allNodes_table s) \<le> length (allNodes_table (findPath_intervals env cur loc h ivs s))"
  using assms
proof (induction ivs arbitrary: s)
  case Nil
  then show ?case by simp
next
  case (Cons iv ivs)
  let ?s1 = "generateChildToFocal env iv cur loc h s"
  from generateChildToFocal_inv [OF Cons.prems, of iv h]
  have 1: "findPath_inv env ?s1" "allNodes_table ?s1 ! cur = allNodes_table s ! cur"
    "length (allNodes_table s) \<le> length (allNodes_table ?s1)"
    by simp_all
  with Cons.prems have "cur < length (allNodes_table ?s1)"
    "\<not> is_goal (allNodes_table ?s1 ! cur)"
    "stay_or_move env (location (allNodes_table ?s1 ! cur)) loc"
    by simp_all
  from Cons.IH [OF 1(1) this] 1 Cons.prems show ?case
    by (simp add: Let_def)
qed

lemma findPath_neighbors_inv:
  assumes "findPath_inv env s" "cur < length (allNodes_table s)"
    "\<not> is_goal (allNodes_table s ! cur)"
    "\<forall>loc\<in>set nbrs. stay_or_move env (location (allNodes_table s ! cur)) loc"
  shows "findPath_inv env (findPath_neighbors env cur nbrs s) \<and>
         allNodes_table (findPath_neighbors env cur nbrs s) ! cur = allNodes_table s ! cur \<and>
         length (allNodes_table s) \<le> length (allNodes_table (findPath_neighbors env cur nbrs s))"
  using assms
proof (induction nbrs arbitrary: s)
  case Nil
  then show ?case by simp
next
  case (Cons loc nbrs)
  define ivs where "ivs = get_safe_intervals env (location (allNodes_table s ! cur)) loc
      (timestep (allNodes_table s ! cur) + 1) (get_1 (interval (allNodes_table s ! cur)) + 1)"
  let ?s1 = "findPath_intervals env cur loc (my_heuristic env loc) ivs s"
  from Cons.prems have "stay_or_move env (location (allNodes_table s ! cur)) loc"
    by simp
  from findPath_intervals_inv [OF Cons.prems(1,2,3) this, of "my_heuristic env loc" ivs]
  have 1: "findPath_inv env ?s1" "allNodes_table ?s1 ! cur = allNodes_table s ! cur"
    "length (allNodes_table s) \<le> length (allNodes_table ?s1)"
    by simp_all
  with Cons.prems have "cur < length (allNodes_table ?s1)"
    "\<not> is_goal (allNodes_table ?s1 ! cur)"
    "\<forall>loc\<in>set nbrs. stay_or_move env (location (allNodes_table ?s1 ! cur)) loc"
    by simp_all
  from Cons.IH [OF 1(1) this] 1 show ?case
    by (simp add: Let_def ivs_def)
qed

lemma findPath_expand_inv:
  assumes "findPath_inv env s" "cur < length (allNodes_table s)"
    "\<not> is_goal (allNodes_table s ! cur)"
  shows "findPath_inv env (snd (findPath_expand env cur iv s)) \<and>
         allNodes_table (snd (findPath_expand env cur iv s)) ! cur = allNodes_table s ! cur \<and>
         length (allNodes_table s) \<le> length (allNodes_table (snd (findPath_expand env cur iv s)))"
proof -
  let ?s1 = "findPath_neighbors env cur (getNeighbors env (location (allNodes_table s ! cur))) s"
  have "\<forall>loc\<in>set (getNeighbors env (location (allNodes_table s ! cur))).
          stay_or_move env (location (allNodes_table s ! cur)) loc"
    by (simp add: stay_or_move_def)
  from findPath_neighbors_inv [OF assms this]
  have 1: "findPath_inv env ?s1" "allNodes_table ?s1 ! cur = allNodes_table s ! cur"
    "length (allNodes_table s) \<le> length (allNodes_table ?s1)"
    by simp_all
  with assms have 2: "cur < length (allNodes_table ?s1)" "\<not> is_goal (allNodes_table ?s1 ! cur)"
    "stay_or_move env (location (allNodes_table ?s1 ! cur)) (location (allNodes_table ?s1 ! cur))"
    by (simp_all add: stay_or_move_def)
  have "findPath_inv env (snd (findPath_wait env cur iv ?s1)) \<and>
        allNodes_table (snd (findPath_wait env cur iv ?s1)) ! cur = allNodes_table ?s1 ! cur \<and>
        length (allNodes_table ?s1) \<le> length (allNodes_table (snd (findPath_wait env cur iv ?s1)))"
    using generateChildToFocal_inv [OF 1(1) 2] 1(1)
    by (simp add: findPath_wait_def Let_def split: prod.split)
  with 1 show ?thesis
    by (simp add: findPath_expand_def)
qed

lemma heap_top_mem: "xs \<noteq> [] \<Longrightarrow> heap_top after ns xs \<in> set xs"
  by (induction after ns xs rule: heap_top.induct) (auto simp: Let_def)

lemma pop_focal_inv:
  assumes "findPath_inv env s" "focal_list s \<noteq> []"
  shows "fst (pop_focal s) \<in> set (focal_list s) \<and>
         fst (pop_focal s) < length (allNodes_table s) \<and>
         findPath_inv env (snd (pop_focal s)) \<and>
         allNodes_table (snd (pop_focal s)) =
           (allNodes_table s)[fst (pop_focal s) :=
              (allNodes_table s ! fst (pop_focal s))\<lparr>in_openlist := False\<rparr>]"
proof -
  define cur where "cur = heap_top focal_after (allNodes_table s) (focal_list s)"
  have m: "cur \<in> set (focal_list s)"
    using assms(2) by (simp add: cur_def heap_top_mem)
  with assms(1) have l: "cur < length (allNodes_table s)"
    by (simp add: findPath_inv_def)
  have "set (remove1 cur (focal_list s)) \<subseteq> set (focal_list s)"
    by (rule set_remove1_subset)
  with assms(1) have "findPath_inv env (snd (pop_focal s))"
    by (auto simp: pop_focal_def cur_def [symmetric] findPath_inv_def search_tree_flag)
  with m l show ?thesis
    by (simp add: pop_focal_def cur_def [symmetric])
qed

lemma findPath_goal_node_inv:
  assumes inv: "findPath_inv env s" and c: "cur < length (allNodes_table s)"
    "\<not> is_goal (allNodes_table s ! cur)" "location (allNodes_table s ! cur) = goal_location env"
    and r: "findPath_goal_node cur fc s = Inr s'"
  shows "findPath_inv env s' \<and> allNodes_table s' ! cur = allNodes_table s ! cur \<and>
         length (allNodes_table s) \<le> length (allNodes_table s')"
proof -
  define ns where "ns = allNodes_table s"
  define goal where "goal = (ns ! cur)\<lparr>is_goal := True, parent := Some cur,
      num_of_conflicts := num_of_conflicts (ns ! cur) + fc\<rparr>"
  from inv have tree: "search_tree env ns" and foc: "\<forall>a\<in>set (focal_list s). a < length ns"
    by (simp_all add: findPath_inv_def ns_def)
  have t0: "0 \<le> timestep (ns ! cur)"
    using tree c(1) by (simp add: search_tree_nonneg ns_def)
  have lk: "link env (ns ! cur) goal" "parent goal = Some cur" "timestep goal = timestep (ns ! cur)"
    using c(3) by (simp_all add: link_def goal_def ns_def)
  show ?thesis
  proof (cases "allNodes_find ns goal")
    case None
    with r have s': "s' = s\<lparr>focal_list := focal_list s @ [length ns],
        num_generated := num_generated s + 1,
        allNodes_table := ns @ [goal\<lparr>in_openlist := True\<rparr>]\<rparr>"
      by (simp add: findPath_goal_node_def Let_def ns_def goal_def)
    have "search_tree env (ns @ [goal\<lparr>in_openlist := True\<rparr>])"
      using tree c lk t0
      by (intro search_tree_append [where cur = cur]) (auto simp: ns_def link_def goal_def)
    with s' foc c show ?thesis
      by (auto simp: findPath_inv_def ns_def nth_append)
  next
    case (Some e)
    then have e: "e < length ns" "eqnode (ns ! e) goal"
      by (simp_all add: allNodes_find_Some)
    then have ge: "is_goal (ns ! e)"
      by (simp add: eqnode_def goal_def)
    moreover from tree have "\<not> is_goal (ns ! 0)"
      by (simp add: search_tree_def)
    moreover from c(2) have "\<not> is_goal (ns ! cur)"
      by (simp add: ns_def)
    ultimately have ne: "cur \<noteq> e" "e \<noteq> 0"
      by metis+
    let ?ex = "ns ! e"
    show ?thesis
    proof (cases "timestep goal < timestep ?ex \<or>
                  (timestep ?ex = timestep goal \<and> num_of_conflicts goal < num_of_conflicts ?ex)")
      case False
      with Some r have "s' = s"
        by (auto simp: findPath_goal_node_def Let_def ns_def goal_def split: if_splits)
      with inv show ?thesis by simp
    next
      case True
      with Some r have s': "s' = s\<lparr>allNodes_table := ns[e := copy ?ex goal]\<rparr>"
        by (auto simp: findPath_goal_node_def Let_def ns_def goal_def split: if_splits)
      have "search_tree env (ns[e := copy ?ex goal])"
        using tree e c ne lk t0 True
        by (intro search_tree_overwrite [where cur = cur])
           (auto simp: ns_def eqnode_def link_def goal_def)
      with s' foc c ne show ?thesis
        by (auto simp: findPath_inv_def ns_def)
    qed
  qed
qed

lemma reconstructedI:
  assumes "search_tree env ns" "g < length ns" "\<not> is_goal (ns ! g)"
    "location (ns ! g) = goal_location env" "updatePath ns g = Some (Inr p)"
  shows "reconstructed env ns g p"
proof -
  from updatePath_result [OF assms(1,2,3)] assms(5)
  have p: "length p = nat (timestep (ns ! g)) + 1"
    "p ! 0 = start_location env" "last p = location (ns ! g)"
    "\<forall>i. Suc i < length p \<longrightarrow> stay_or_move env (p ! i) (p ! Suc i)"
    "\<forall>c. on_chain ns g c \<longrightarrow>
               p ! nat (timestep (ns ! c)) = location (ns ! c) \<and>
               (parent (ns ! c) = None \<longrightarrow> timestep (ns ! c) = 0) \<and>
               (\<forall>pr t. parent (ns ! c) = Some pr \<longrightarrow> timestep (ns ! pr) < t \<longrightarrow>
                        t < timestep (ns ! c) \<longrightarrow> p ! nat t = location (ns ! pr))"
    by auto
  from assms(1,2) have "0 \<le> timestep (ns ! g)"
    by (rule search_tree_nonneg)
  with p(1) have "int (length p) = timestep (ns ! g) + 1"
    by simp
  with assms p show ?thesis
    unfolding reconstructed_def by simp
qed

lemma updatePath_total:
  assumes "search_tree env ns" "g < length ns" "\<not> is_goal (ns ! g)"
  shows "\<exists>p. updatePath ns g = Some (Inr p)"
  using updatePath_result [OF assms] by blast

text \<open>
  One round of the loop of \<open>findPath\<close> on a search tree: it does not fail in the walk, a
  round that goes on keeps the tree, and a round that leaves the loop returns a path
  reconstructed from a node on the goal cell.
\<close>

lemma findPath_iteration_inv:
  assumes inv: "findPath_inv env s" and ne: "focal_list s \<noteq> []"
    and r: "findPath_iteration env ht iv s = Some (Inr ctl)"
  shows "case ctl of
           Continue iv' s' \<Rightarrow> findPath_inv env s'
         | Break p s' \<Rightarrow> findPath_inv env s' \<and> (\<exists>g. reconstructed env (allNodes_table s') g p)"
proof -
  define cur where "cur = fst (pop_focal s)"
  define s1 where "s1 = snd (pop_focal s)"
  define c where "c = allNodes_table s1 ! cur"
  from pop_focal_inv [OF inv ne]
  have cl: "cur < length (allNodes_table s)" and inv1: "findPath_inv env s1"
    and len1: "length (allNodes_table s1) = length (allNodes_table s)"
    by (simp_all add: cur_def s1_def)
  then have cl1: "cur < length (allNodes_table s1)"
    by simp
  from inv1 have tree1: "search_tree env (allNodes_table s1)"
    by (simp add: findPath_inv_def)
  have it: "findPath_iteration env ht iv s =
     (if location c < 0 then Some (Inl AssertionFailed)
      else if is_goal c
      then (case parent c of
              None \<Rightarrow> Some (Inl UndefinedBehaviour)
            | Some p \<Rightarrow> break_with (allNodes_table s1) p s1)
      else if location c = goal_location env \<and> \<not> wait_at_goal c \<and> timestep c \<ge> ht
      then (let future_collisions = getFutureNumOfCollisions env (location c) (timestep c)
            in if future_collisions = 0 then break_with (allNodes_table s1) cur s1
               else (case findPath_goal_node cur future_collisions s1 of
                       Inl e \<Rightarrow> Some (Inl e)
                     | Inr s' \<Rightarrow>
                         Some (Inr (case findPath_expand env cur iv s' of
                                      (iv', s'') \<Rightarrow> Continue iv' s''))))
      else Some (Inr (case findPath_expand env cur iv s1 of (iv', s'') \<Rightarrow> Continue iv' s'')))"
    unfolding findPath_iteration_def cur_def s1_def c_def
    by (simp add: case_prod_beta Let_def)
  have brk: ?thesis if b: "break_with (allNodes_table s1) g s1 = Some (Inr ctl)"
    and g: "g < length (allNodes_table s1)" "\<not> is_goal (allNodes_table s1 ! g)"
      "location (allNodes_table s1 ! g) = goal_location env" for g
  proof -
    from b obtain p where p: "updatePath (allNodes_table s1) g = Some (Inr p)" "ctl = Break p s1"
      by (auto simp: break_with_def split: option.splits sum.splits)
    from reconstructedI [OF tree1 g p(1)] inv1 p(2) show ?thesis
      by auto
  qed
  have expand: "findPath_inv env (snd (findPath_expand env cur iv s2))"
    if "findPath_inv env s2" "cur < length (allNodes_table s2)" "\<not> is_goal (allNodes_table s2 ! cur)"
    for s2
    using findPath_expand_inv [OF that] by simp
  show ?thesis
  proof (cases "is_goal c")
    case True
    with r it obtain p where p: "parent c = Some p"
      "break_with (allNodes_table s1) p s1 = Some (Inr ctl)"
      by (auto split: if_splits option.splits)
    from search_tree_link [OF tree1 cl1] p(1) True
    have "p < length (allNodes_table s1)" "\<not> is_goal (allNodes_table s1 ! p)"
      "location (allNodes_table s1 ! p) = goal_location env"
      by (auto simp: c_def link_def)
    with p(2) show ?thesis by (rule brk)
  next
    case ng: False
    show ?thesis
    proof (cases "location c = goal_location env \<and> \<not> wait_at_goal c \<and> timestep c \<ge> ht")
      case False
      with r it ng have "ctl = (case findPath_expand env cur iv s1 of (iv', s'') \<Rightarrow> Continue iv' s'')"
        by (auto split: if_splits)
      with expand [OF inv1 cl1] ng show ?thesis
        by (auto simp: c_def split: prod.splits)
    next
      case goal: True
      define fc where "fc = getFutureNumOfCollisions env (location c) (timestep c)"
      show ?thesis
      proof (cases "fc = 0")
        case True
        with r it ng goal have "break_with (allNodes_table s1) cur s1 = Some (Inr ctl)"
          by (auto simp: fc_def Let_def split: if_splits)
        with cl1 ng goal show ?thesis
          by (intro brk [of cur]) (simp_all add: c_def)
      next
        case False
        with r it ng goal obtain s2 where s2: "findPath_goal_node cur fc s1 = Inr s2"
          "ctl = (case findPath_expand env cur iv s2 of (iv', s'') \<Rightarrow> Continue iv' s'')"
          by (auto simp: fc_def Let_def split: if_splits sum.splits)
        from findPath_goal_node_inv [OF inv1 cl1 _ _ s2(1)] ng goal
        have "findPath_inv env s2" "allNodes_table s2 ! cur = allNodes_table s1 ! cur"
          "length (allNodes_table s1) \<le> length (allNodes_table s2)"
          by (simp_all add: c_def)
        with expand [of s2] cl1 ng s2(2) show ?thesis
          by (auto simp: c_def split: prod.splits)
      qed
    qed
  qed
qed

lemma findPath_loop_result:
  assumes "findPath_loop env ht iv s = Some r" "findPath_inv env s"
  shows "case r of Inl e \<Rightarrow> True
         | Inr (p, sf) \<Rightarrow> p = [] \<or> (\<exists>g. reconstructed env (allNodes_table sf) g p)"
  using assms
proof (induction rule: findPath_loop.raw_induct [rotated 1, consumes 1])
  case (1 loop env ht iv s r)
  show ?case
  proof (cases "focal_list s = []")
    case True
    with 1(2) show ?thesis by auto
  next
    case False
    with 1(2) obtain x where x: "findPath_iteration env ht iv s = Some x"
      by (auto split: option.splits)
    show ?thesis
    proof (cases x)
      case (Inl e)
      with 1(2) False x show ?thesis by auto
    next
      case (Inr ctl)
      from findPath_iteration_inv [OF 1(3) False x [unfolded Inr]]
      show ?thesis
      proof (cases ctl)
        case (Break p s')
        with 1(2) False x Inr
          findPath_iteration_inv [OF 1(3) False x [unfolded Inr]]
        show ?thesis by auto
      next
        case (Continue iv' s')
        with 1(2) False x Inr have "loop env ht iv' s' = Some r"
          by simp
        moreover from Continue findPath_iteration_inv [OF 1(3) False x [unfolded Inr]]
        have "findPath_inv env s'" by simp
        ultimately show ?thesis by (rule 1(1))
      qed
    qed
  qed
qed

lemma findPath_start_inv:
  assumes "allNodes_table s0 = []" "focal_list s0 = []"
  shows "findPath_inv env (findPath_start env s0)"
  using assms
  by (simp add: findPath_inv_def findPath_start_def search_tree_def new_SIPPNode_def Let_def)

subsection \<open>The path returned by mode A\<close>

text \<open>
  Claim C1. Let \<open>findPath\<close> be called on an idle planner (empty heaps and node table) and
  return a non-empty path \<open>p\<close>. Then the loop ended with a node table \<open>ns\<close> and a terminal
  node \<open>g\<close> on the goal cell such that \<open>p\<close> is \<open>updatePath\<close> of \<open>g\<close>, and: \<open>p\<close> has
  \<open>timestep g + 1\<close> entries; \<open>p[0]\<close> is the start location and the last entry is the goal
  location; for every node \<open>c\<close> on the parent chain of \<open>g\<close>, \<open>p\<close> has the cell of \<open>c\<close> at the
  time step of \<open>c\<close> and the cell of the parent of \<open>c\<close> at every time step strictly between
  the parent's and the child's, and a node without parent (the root) is at time step 0;
  any two consecutive entries of \<open>p\<close> are equal or neighbours in the grid.
\<close>

theorem findPath_path_reconstructed:
  assumes "allNodes_table s0 = []" "focal_list s0 = []"
    and "findPath env s0 = Some (Inr (p, s))" "p \<noteq> []"
  shows "\<exists>sf g.
           findPath_loop env (getHoldingTime env (goal_location env) (length_min env))
             (get_first_safe_interval env (start_location env)) (findPath_start env s0) =
             Some (Inr (p, sf)) \<and>
           g < length (allNodes_table sf) \<and>
           location (allNodes_table sf ! g) = goal_location env \<and>
           updatePath (allNodes_table sf) g = Some (Inr p) \<and>
           int (length p) = timestep (allNodes_table sf ! g) + 1 \<and>
           p ! 0 = start_location env \<and> last p = goal_location env \<and>
           (\<forall>c. on_chain (allNodes_table sf) g c \<longrightarrow>
              p ! nat (timestep (allNodes_table sf ! c)) = location (allNodes_table sf ! c) \<and>
              (parent (allNodes_table sf ! c) = None \<longrightarrow> timestep (allNodes_table sf ! c) = 0) \<and>
              (\<forall>pr t. parent (allNodes_table sf ! c) = Some pr \<longrightarrow>
                 timestep (allNodes_table sf ! pr) < t \<longrightarrow> t < timestep (allNodes_table sf ! c) \<longrightarrow>
                 p ! nat t = location (allNodes_table sf ! pr))) \<and>
           (\<forall>i. Suc i < length p \<longrightarrow>
              p ! Suc i = p ! i \<or> p ! Suc i \<in> set (getNeighbors env (p ! i)))"
proof -
  let ?ht = "getHoldingTime env (goal_location env) (length_min env)"
  let ?iv = "get_first_safe_interval env (start_location env)"
  from assms(3,4) obtain sf where
    loop: "findPath_loop env ?ht ?iv (findPath_start env s0) = Some (Inr (p, sf))"
    by (auto simp: findPath_def Let_def split: if_splits option.splits sum.splits)
  from findPath_loop_result [OF loop findPath_start_inv [OF assms(1,2)]] assms(4)
  obtain g where "reconstructed env (allNodes_table sf) g p"
    by auto
  with loop show ?thesis
    unfolding reconstructed_def stay_or_move_def by blast
qed

theorem findPath_path_reconstructed_witness:
  "allNodes_table idle_SIPP = [] \<and> focal_list idle_SIPP = [] \<and>
   findPath grid_env idle_SIPP =
     Some (Inr ([0, 3, 4, 5, 5, 5, 2], idle_SIPP\<lparr>num_expanded := 9, num_generated := 10\<rparr>)) \<and>
   (\<exists>(sf :: SIPP) g.
      g < length (allNodes_table sf) \<and>
      updatePath (allNodes_table sf) g = Some (Inr [0, 3, 4, 5, 5, 5, 2]) \<and>
      timestep (allNodes_table sf ! g) = 6 \<and>
      start_location grid_env = 0 \<and> goal_location grid_env = 2 \<and>
      (\<forall>i. Suc i < 7 \<longrightarrow>
         [0, 3, 4, 5, 5, 5, 2] ! Suc i = [0, 3, 4, 5, 5, 5, 2 :: int] ! i \<or>
         [0, 3, 4, 5, 5, 5, 2] ! Suc i \<in> set (getNeighbors grid_env ([0, 3, 4, 5, 5, 5, 2] ! i))))"
proof -
  have a: "allNodes_table idle_SIPP = []" "focal_list idle_SIPP = []"
    by (simp_all add: idle_SIPP_def)
  have r: "findPath grid_env idle_SIPP =
     Some (Inr ([0, 3, 4, 5, 5, 5, 2], idle_SIPP\<lparr>num_expanded := 9, num_generated := 10\<rparr>))"
    by code_simp
  have ne: "[0, 3, 4, 5, 5, 5, 2 :: int] \<noteq> []"
    by simp
  have e: "start_location grid_env = 0" "goal_location grid_env = 2"
    by (simp_all add: grid_env_def)
  from findPath_path_reconstructed [OF a r ne]
  obtain sf :: SIPP and g where g: "g < length (allNodes_table sf)"
    "updatePath (allNodes_table sf) g = Some (Inr [0, 3, 4, 5, 5, 5, 2])"
    "int (length [0, 3, 4, 5, 5, 5, 2 :: int]) = timestep (allNodes_table sf ! g) + 1"
    "\<forall>i. Suc i < length [0, 3, 4, 5, 5, 5, 2 :: int] \<longrightarrow>
         [0, 3, 4, 5, 5, 5, 2] ! Suc i = [0, 3, 4, 5, 5, 5, 2 :: int] ! i \<or>
         [0, 3, 4, 5, 5, 5, 2] ! Suc i \<in> set (getNeighbors grid_env ([0, 3, 4, 5, 5, 5, 2] ! i))"
    by blast
  from g(3) have t: "timestep (allNodes_table sf ! g) = 6"
    by simp
  from g(4) have n: "\<forall>i. Suc i < 7 \<longrightarrow>
         [0, 3, 4, 5, 5, 5, 2] ! Suc i = [0, 3, 4, 5, 5, 5, 2 :: int] ! i \<or>
         [0, 3, 4, 5, 5, 5, 2] ! Suc i \<in> set (getNeighbors grid_env ([0, 3, 4, 5, 5, 5, 2] ! i))"
    by simp
  from a r e g(1,2) t n show ?thesis
    by blast
qed

subsection \<open>The rounds of mode A, case by case\<close>

lemma findPath_iteration_cases:
  fixes env ht iv s
  defines "cur \<equiv> fst (pop_focal s)"
  defines "s1 \<equiv> snd (pop_focal s)"
  defines "c \<equiv> allNodes_table (snd (pop_focal s)) ! fst (pop_focal s)"
  defines "fc \<equiv> getFutureNumOfCollisions env
                   (location (allNodes_table (snd (pop_focal s)) ! fst (pop_focal s)))
                   (timestep (allNodes_table (snd (pop_focal s)) ! fst (pop_focal s)))"
  assumes r: "findPath_iteration env ht iv s = Some (Inr ctl)"
  obtains (goal_popped) p path where "is_goal c" "parent c = Some p"
      "updatePath (allNodes_table s1) p = Some (Inr path)" "ctl = Break path s1"
  | (direct) path where "\<not> is_goal c" "location c = goal_location env" "\<not> wait_at_goal c"
      "ht \<le> timestep c" "fc = 0"
      "updatePath (allNodes_table s1) cur = Some (Inr path)" "ctl = Break path s1"
  | (virtual) s2 where "\<not> is_goal c" "location c = goal_location env" "\<not> wait_at_goal c"
      "ht \<le> timestep c" "fc \<noteq> 0" "findPath_goal_node cur fc s1 = Inr s2"
      "ctl = Continue (fst (findPath_expand env cur iv s2)) (snd (findPath_expand env cur iv s2))"
  | (plain) "\<not> is_goal c"
      "\<not> (location c = goal_location env \<and> \<not> wait_at_goal c \<and> ht \<le> timestep c)"
      "ctl = Continue (fst (findPath_expand env cur iv s1)) (snd (findPath_expand env cur iv s1))"
proof -
  have it: "findPath_iteration env ht iv s =
     (if location c < 0 then Some (Inl AssertionFailed)
      else if is_goal c
      then (case parent c of
              None \<Rightarrow> Some (Inl UndefinedBehaviour)
            | Some p \<Rightarrow> break_with (allNodes_table s1) p s1)
      else if location c = goal_location env \<and> \<not> wait_at_goal c \<and> timestep c \<ge> ht
      then (if fc = 0 then break_with (allNodes_table s1) cur s1
            else (case findPath_goal_node cur fc s1 of
                    Inl e \<Rightarrow> Some (Inl e)
                  | Inr s' \<Rightarrow>
                      Some (Inr (Continue (fst (findPath_expand env cur iv s'))
                                          (snd (findPath_expand env cur iv s'))))))
      else Some (Inr (Continue (fst (findPath_expand env cur iv s1))
                               (snd (findPath_expand env cur iv s1)))))"
    unfolding findPath_iteration_def cur_def s1_def c_def fc_def
    by (simp add: case_prod_beta Let_def cong: sum.case_cong)
  have brk: "\<exists>path. updatePath (allNodes_table s1) g = Some (Inr path) \<and> ctl = Break path s1"
    if "break_with (allNodes_table s1) g s1 = Some (Inr ctl)" for g
    using that by (auto simp: break_with_def split: option.splits sum.splits)
  show ?thesis
  proof (cases "is_goal c")
    case True
    with r it obtain p where p: "parent c = Some p"
      "break_with (allNodes_table s1) p s1 = Some (Inr ctl)"
      by (auto split: if_splits option.splits)
    with brk [OF p(2)] True show ?thesis
      by (auto intro: goal_popped)
  next
    case ng: False
    show ?thesis
    proof (cases "location c = goal_location env \<and> \<not> wait_at_goal c \<and> timestep c \<ge> ht")
      case False
      with r it ng have "ctl = Continue (fst (findPath_expand env cur iv s1))
                                        (snd (findPath_expand env cur iv s1))"
        by (auto split: if_splits)
      with ng False show ?thesis by (rule plain)
    next
      case goal: True
      show ?thesis
      proof (cases "fc = 0")
        case True
        with r it ng goal have "break_with (allNodes_table s1) cur s1 = Some (Inr ctl)"
          by (auto split: if_splits)
        with brk [OF this] ng goal True show ?thesis
          by (auto intro: direct)
      next
        case False
        with r it ng goal obtain s2 where s2: "findPath_goal_node cur fc s1 = Inr s2"
          "ctl = Continue (fst (findPath_expand env cur iv s2)) (snd (findPath_expand env cur iv s2))"
          by (auto split: if_splits sum.splits)
        with ng goal False show ?thesis
          by (auto intro: virtual)
      qed
    qed
  qed
qed

subsection \<open>The holding time in mode A\<close>

lemma search_tree_parent_valid:
  "search_tree env ns \<Longrightarrow> a < length ns \<Longrightarrow> parent (ns ! a) = Some p \<Longrightarrow> p < length ns"
  using search_tree_link by blast

lemma goal_intervals_node:
  assumes "goal_intervals_inv env ht ns" "a < length ns" "location (ns ! a) = goal_location env"
  shows "timestep (ns ! a) < get_1 (interval (ns ! a))"
    and "get_0 (interval (ns ! a)) < ht \<Longrightarrow> get_1 (interval (ns ! a)) \<le> ht"
  using assms unfolding goal_intervals_inv_def by blast+

lemma goal_intervals_parent:
  assumes "goal_intervals_inv env ht ns" "a < length ns" "is_goal (ns ! a)"
    "parent (ns ! a) = Some p"
  shows "ht \<le> timestep (ns ! p)"
  using assms unfolding goal_intervals_inv_def by blast

lemma goal_intervals_FVal:
  assumes "goal_intervals_inv env ht ns" "a < length ns"
  shows "ht \<le> getFVal (ns ! a)"
  using assms unfolding goal_intervals_inv_def by blast

lemma goal_intervals_flag:
  assumes gi: "goal_intervals_inv env ht ns"
  shows "goal_intervals_inv env ht (ns[a := (ns ! a)\<lparr>in_openlist := b\<rparr>])"
proof -
  let ?ns' = "ns[a := (ns ! a)\<lparr>in_openlist := b\<rparr>]"
  have f: "parent (?ns' ! i) = parent (ns ! i)" "timestep (?ns' ! i) = timestep (ns ! i)"
    "location (?ns' ! i) = location (ns ! i)" "is_goal (?ns' ! i) = is_goal (ns ! i)"
    "interval (?ns' ! i) = interval (ns ! i)" "getFVal (?ns' ! i) = getFVal (ns ! i)"
    if "i < length ns" for i
    using that by (cases "i = a"; simp)+
  have pf: "timestep (?ns' ! p) = timestep (ns ! p)" for p
  proof (cases "a < length ns")
    case True
    then show ?thesis by (cases "p = a") simp_all
  next
    case False
    then have "length ns \<le> a" by simp
    then have "?ns' = ns" by (rule list_update_beyond)
    then show ?thesis by simp
  qed
  show ?thesis
    unfolding goal_intervals_inv_def
  proof (intro conjI allI impI)
    fix i assume i: "i < length ?ns'" "location (?ns' ! i) = goal_location env"
    then have i': "i < length ns" "location (ns ! i) = goal_location env"
      by (simp_all add: f)
    from goal_intervals_node(1) [OF gi i'] i'(1)
    show "timestep (?ns' ! i) < get_1 (interval (?ns' ! i))"
      by (simp add: f)
    assume "get_0 (interval (?ns' ! i)) < ht"
    with goal_intervals_node(2) [OF gi i'] i'(1)
    show "get_1 (interval (?ns' ! i)) \<le> ht"
      by (simp add: f)
  next
    fix i p assume i: "i < length ?ns'" "is_goal (?ns' ! i)" "parent (?ns' ! i) = Some p"
    then have "i < length ns" "is_goal (ns ! i)" "parent (ns ! i) = Some p"
      by (simp_all add: f)
    from goal_intervals_parent [OF gi this] show "ht \<le> timestep (?ns' ! p)"
      by (simp only: pf)
  next
    fix i assume "i < length ?ns'"
    then have i: "i < length ns" by simp
    from goal_intervals_FVal [OF gi i] i show "ht \<le> getFVal (?ns' ! i)"
      by (simp add: f)
  qed
qed

lemma goal_intervals_append:
  assumes gi: "goal_intervals_inv env ht ns"
    and pv: "\<forall>a<length ns. \<forall>p. parent (ns ! a) = Some p \<longrightarrow> p < length ns"
    and n1: "location n = goal_location env \<longrightarrow>
             timestep n < get_1 (interval n) \<and> (get_0 (interval n) < ht \<longrightarrow> get_1 (interval n) \<le> ht)"
    and n2: "is_goal n \<longrightarrow> (\<forall>p. parent n = Some p \<longrightarrow> p < length ns \<and> ht \<le> timestep (ns ! p))"
    and n4: "ht \<le> getFVal n"
  shows "goal_intervals_inv env ht (ns @ [n])"
  unfolding goal_intervals_inv_def
proof (intro conjI allI impI)
  fix a assume a: "a < length (ns @ [n])" "location ((ns @ [n]) ! a) = goal_location env"
  show "timestep ((ns @ [n]) ! a) < get_1 (interval ((ns @ [n]) ! a))"
  proof (cases "a < length ns")
    case True
    with a goal_intervals_node(1) [OF gi True] show ?thesis
      by (simp add: nth_append)
  next
    case False
    with a have "a = length ns" by simp
    with a n1 show ?thesis by simp
  qed
  assume l: "get_0 (interval ((ns @ [n]) ! a)) < ht"
  show "get_1 (interval ((ns @ [n]) ! a)) \<le> ht"
  proof (cases "a < length ns")
    case True
    with a l goal_intervals_node(2) [OF gi True] show ?thesis
      by (simp add: nth_append)
  next
    case False
    with a have "a = length ns" by simp
    with a l n1 show ?thesis by simp
  qed
next
  fix a p assume a: "a < length (ns @ [n])" "is_goal ((ns @ [n]) ! a)"
    "parent ((ns @ [n]) ! a) = Some p"
  show "ht \<le> timestep ((ns @ [n]) ! p)"
  proof (cases "a < length ns")
    case True
    with a have old: "is_goal (ns ! a)" "parent (ns ! a) = Some p"
      by (simp_all add: nth_append)
    with pv True have "p < length ns" by blast
    with goal_intervals_parent [OF gi True old] show ?thesis
      by (simp add: nth_append)
  next
    case False
    with a have "a = length ns" by simp
    with a n2 show ?thesis
      by (simp add: nth_append)
  qed
next
  fix a assume a: "a < length (ns @ [n])"
  show "ht \<le> getFVal ((ns @ [n]) ! a)"
  proof (cases "a < length ns")
    case True
    with goal_intervals_FVal [OF gi True] show ?thesis
      by (simp add: nth_append)
  next
    case False
    with a have "a = length ns" by simp
    with n4 show ?thesis by simp
  qed
qed

lemma goal_intervals_overwrite:
  assumes gi: "goal_intervals_inv env ht ns" and e: "e < length ns"
    and n1: "location n = goal_location env \<longrightarrow>
             timestep n < get_1 (interval n) \<and> (get_0 (interval n) < ht \<longrightarrow> get_1 (interval n) \<le> ht)"
    and n2: "is_goal n \<longrightarrow> (\<forall>p. parent n = Some p \<longrightarrow> p \<noteq> e \<and> ht \<le> timestep (ns ! p))"
    and n3: "\<forall>a<length ns. is_goal (ns ! a) \<longrightarrow> parent (ns ! a) = Some e \<longrightarrow> ht \<le> timestep n"
    and n4: "ht \<le> getFVal n"
  shows "goal_intervals_inv env ht (ns[e := n])"
  unfolding goal_intervals_inv_def
proof (intro conjI allI impI)
  fix a assume a: "a < length (ns[e := n])" "location (ns[e := n] ! a) = goal_location env"
  show "timestep (ns[e := n] ! a) < get_1 (interval (ns[e := n] ! a))"
  proof (cases "a = e")
    case True
    with a e n1 show ?thesis by simp
  next
    case False
    with a have "a < length ns" "location (ns ! a) = goal_location env" by simp_all
    from goal_intervals_node(1) [OF gi this] False show ?thesis by simp
  qed
  assume l: "get_0 (interval (ns[e := n] ! a)) < ht"
  show "get_1 (interval (ns[e := n] ! a)) \<le> ht"
  proof (cases "a = e")
    case True
    with a e l n1 show ?thesis by simp
  next
    case False
    with a have "a < length ns" "location (ns ! a) = goal_location env" by simp_all
    from goal_intervals_node(2) [OF gi this] l False show ?thesis by simp
  qed
next
  fix a p assume a: "a < length (ns[e := n])" "is_goal (ns[e := n] ! a)"
    "parent (ns[e := n] ! a) = Some p"
  show "ht \<le> timestep (ns[e := n] ! p)"
  proof (cases "a = e")
    case True
    with a e n2 show ?thesis by simp
  next
    case False
    with a have old: "a < length ns" "is_goal (ns ! a)" "parent (ns ! a) = Some p"
      by simp_all
    show ?thesis
    proof (cases "p = e")
      case True
      with old n3 e show ?thesis by simp
    next
      case False
      with goal_intervals_parent [OF gi old] show ?thesis
        by simp
    qed
  qed
next
  fix a assume a: "a < length (ns[e := n])"
  show "ht \<le> getFVal (ns[e := n] ! a)"
  proof (cases "a = e")
    case True
    with e n4 show ?thesis by simp
  next
    case False
    from a have "a < length ns" by simp
    from goal_intervals_FVal [OF gi this] False show ?thesis by simp
  qed
qed

lemma generateChildToFocal_holding:
  assumes inv: "findPath_inv env s" and gi: "goal_intervals_inv env ht (allNodes_table s)"
    and cl: "cur < length (allNodes_table s)"
    and iv: "loc = goal_location env \<longrightarrow>
             max (timestep (allNodes_table s ! cur) + 1) (get_0 iv) < get_1 iv \<and>
             (get_0 iv < ht \<longrightarrow> get_1 iv \<le> ht)"
  shows "goal_intervals_inv env ht (allNodes_table (generateChildToFocal env iv cur loc h s))"
proof -
  define nxt where "nxt = generateChildToFocal_next env iv cur loc h s"
  define ns where "ns = allNodes_table s"
  from inv have tree: "search_tree env ns"
    by (simp add: findPath_inv_def ns_def)
  then have pv: "\<forall>a<length ns. \<forall>p. parent (ns ! a) = Some p \<longrightarrow> p < length ns"
    using search_tree_parent_valid by blast
  have nf: "\<not> is_goal nxt" "location nxt = loc" "interval nxt = iv"
    "timestep nxt = max (timestep (ns ! cur) + 1) (get_0 iv)"
    by (simp_all add: nxt_def generateChildToFocal_next_fields ns_def)
  have n1: "location nxt = goal_location env \<longrightarrow>
            timestep nxt < get_1 (interval nxt) \<and>
            (get_0 (interval nxt) < ht \<longrightarrow> get_1 (interval nxt) \<le> ht)"
    using iv nf by (simp add: ns_def)
  have "getFVal (ns ! cur) \<le> getFVal nxt"
    by (simp add: getFVal_def nxt_def generateChildToFocal_next_fields ns_def)
  with goal_intervals_FVal [OF gi cl] have n4: "ht \<le> getFVal nxt"
    by (simp add: ns_def)
  have ov: "goal_intervals_inv env ht (ns[e := (copy (ns ! e) nxt)\<lparr>in_openlist := b\<rparr>])"
    if e: "e < length ns" "eqnode (ns ! e) nxt" for e b
  proof (rule goal_intervals_overwrite)
    show "goal_intervals_inv env ht ns" using gi by (simp add: ns_def)
    show "e < length ns" by fact
    show "location ((copy (ns ! e) nxt)\<lparr>in_openlist := b\<rparr>) = goal_location env \<longrightarrow>
          timestep ((copy (ns ! e) nxt)\<lparr>in_openlist := b\<rparr>)
            < get_1 (interval ((copy (ns ! e) nxt)\<lparr>in_openlist := b\<rparr>)) \<and>
          (get_0 (interval ((copy (ns ! e) nxt)\<lparr>in_openlist := b\<rparr>)) < ht \<longrightarrow>
           get_1 (interval ((copy (ns ! e) nxt)\<lparr>in_openlist := b\<rparr>)) \<le> ht)"
      using n1 by simp
    show "is_goal ((copy (ns ! e) nxt)\<lparr>in_openlist := b\<rparr>) \<longrightarrow>
          (\<forall>p. parent ((copy (ns ! e) nxt)\<lparr>in_openlist := b\<rparr>) = Some p \<longrightarrow>
               p \<noteq> e \<and> ht \<le> timestep (ns ! p))"
      using nf by simp
    show "ht \<le> getFVal ((copy (ns ! e) nxt)\<lparr>in_openlist := b\<rparr>)"
      using n4 by simp
    show "\<forall>a<length ns. is_goal (ns ! a) \<longrightarrow> parent (ns ! a) = Some e \<longrightarrow>
            ht \<le> timestep ((copy (ns ! e) nxt)\<lparr>in_openlist := b\<rparr>)"
    proof (intro allI impI)
      fix a assume a: "a < length ns" "is_goal (ns ! a)" "parent (ns ! a) = Some e"
      from search_tree_link [OF tree a(1,3)] a(2)
      have "location (ns ! e) = goal_location env"
        by (simp add: link_def)
      have gi': "goal_intervals_inv env ht ns"
        using gi by (simp add: ns_def)
      from goal_intervals_parent [OF gi' a] have "ht \<le> timestep (ns ! e)" .
      with goal_intervals_node [OF gi' e(1) \<open>location (ns ! e) = goal_location env\<close>]
      have "ht \<le> get_0 (interval (ns ! e))"
        by linarith
      with e(2) have "ht \<le> get_0 iv"
        by (simp add: eqnode_def nf)
      then show "ht \<le> timestep ((copy (ns ! e) nxt)\<lparr>in_openlist := b\<rparr>)"
        by (simp add: nf)
    qed
  qed
  show ?thesis
  proof (cases rule: generateChildToFocal_effect [of env iv cur loc h s])
    case same
    with gi show ?thesis by simp
  next
    case new
    have "goal_intervals_inv env ht (ns @ [nxt\<lparr>in_openlist := True\<rparr>])"
      using gi pv n1 nf n4 by (intro goal_intervals_append) (simp_all add: ns_def)
    with new show ?thesis
      by (simp add: ns_def nxt_def)
  next
    case (reopen e)
    with ov [of e True] show ?thesis
      by (simp add: ns_def nxt_def)
  next
    case (update e)
    from update(4) have "(copy (ns ! e) nxt)\<lparr>in_openlist := True\<rparr> = copy (ns ! e) nxt"
      by (simp add: copy_def ns_def)
    with update(1,2,5) ov [of e True] show ?thesis
      by (simp add: ns_def nxt_def)
  qed
qed

lemma findPath_intervals_holding:
  assumes "findPath_inv env s" "goal_intervals_inv env ht (allNodes_table s)"
    "cur < length (allNodes_table s)" "\<not> is_goal (allNodes_table s ! cur)"
    "stay_or_move env (location (allNodes_table s ! cur)) loc"
    "\<forall>iv\<in>set ivs. loc = goal_location env \<longrightarrow>
       max (timestep (allNodes_table s ! cur) + 1) (get_0 iv) < get_1 iv \<and>
       (get_0 iv < ht \<longrightarrow> get_1 iv \<le> ht)"
  shows "goal_intervals_inv env ht (allNodes_table (findPath_intervals env cur loc h ivs s))"
  using assms
proof (induction ivs arbitrary: s)
  case Nil
  then show ?case by simp
next
  case (Cons iv ivs)
  let ?s1 = "generateChildToFocal env iv cur loc h s"
  from generateChildToFocal_inv [OF Cons.prems(1,3,4,5), of iv h]
  have 1: "findPath_inv env ?s1" "allNodes_table ?s1 ! cur = allNodes_table s ! cur"
    "length (allNodes_table s) \<le> length (allNodes_table ?s1)"
    by simp_all
  from Cons.prems(6) have "loc = goal_location env \<longrightarrow>
       max (timestep (allNodes_table s ! cur) + 1) (get_0 iv) < get_1 iv \<and>
       (get_0 iv < ht \<longrightarrow> get_1 iv \<le> ht)"
    by simp
  from generateChildToFocal_holding [OF Cons.prems(1,2,3) this]
  have 2: "goal_intervals_inv env ht (allNodes_table ?s1)" .
  from Cons.prems(6) have d: "\<forall>iv\<in>set ivs. loc = goal_location env \<longrightarrow>
       max (timestep (allNodes_table s ! cur) + 1) (get_0 iv) < get_1 iv \<and>
       (get_0 iv < ht \<longrightarrow> get_1 iv \<le> ht)"
    by simp
  from 1 Cons.prems(3,4,5) have "cur < length (allNodes_table ?s1)"
    "\<not> is_goal (allNodes_table ?s1 ! cur)"
    "stay_or_move env (location (allNodes_table ?s1 ! cur)) loc"
    by simp_all
  moreover from d have "\<forall>iv\<in>set ivs. loc = goal_location env \<longrightarrow>
       max (timestep (allNodes_table ?s1 ! cur) + 1) (get_0 iv) < get_1 iv \<and>
       (get_0 iv < ht \<longrightarrow> get_1 iv \<le> ht)"
    unfolding 1(2) .
  ultimately have "goal_intervals_inv env ht
      (allNodes_table (findPath_intervals env cur loc h ivs ?s1))"
    by (rule Cons.IH [OF 1(1) 2])
  with Cons.prems(2) show ?case
    by (simp add: Let_def)
qed

lemma findPath_neighbors_holding:
  assumes rc: "reservation_contract env"
    and ht: "ht = getHoldingTime env (goal_location env) (length_min env)"
    and "findPath_inv env s" "goal_intervals_inv env ht (allNodes_table s)"
    "cur < length (allNodes_table s)" "\<not> is_goal (allNodes_table s ! cur)"
    "\<forall>loc\<in>set nbrs. stay_or_move env (location (allNodes_table s ! cur)) loc"
  shows "goal_intervals_inv env ht (allNodes_table (findPath_neighbors env cur nbrs s))"
  using assms(3-)
proof (induction nbrs arbitrary: s)
  case Nil
  then show ?case by simp
next
  case (Cons loc nbrs)
  define ivs where "ivs = get_safe_intervals env (location (allNodes_table s ! cur)) loc
      (timestep (allNodes_table s ! cur) + 1) (get_1 (interval (allNodes_table s ! cur)) + 1)"
  let ?s1 = "findPath_intervals env cur loc (my_heuristic env loc) ivs s"
  from Cons.prems have mv: "stay_or_move env (location (allNodes_table s ! cur)) loc"
    by simp
  from findPath_intervals_inv [OF Cons.prems(1,3,4) mv, of "my_heuristic env loc" ivs]
  have 1: "findPath_inv env ?s1" "allNodes_table ?s1 ! cur = allNodes_table s ! cur"
    "length (allNodes_table s) \<le> length (allNodes_table ?s1)"
    by simp_all
  have "\<forall>iv\<in>set ivs. loc = goal_location env \<longrightarrow>
       max (timestep (allNodes_table s ! cur) + 1) (get_0 iv) < get_1 iv \<and>
       (get_0 iv < ht \<longrightarrow> get_1 iv \<le> ht)"
    using rc unfolding reservation_contract_def Let_def ivs_def ht by blast
  from findPath_intervals_holding [OF Cons.prems(1,2,3,4) mv this]
  have 2: "goal_intervals_inv env ht (allNodes_table ?s1)" .
  from 1 Cons.prems have "cur < length (allNodes_table ?s1)"
    "\<not> is_goal (allNodes_table ?s1 ! cur)"
    "\<forall>loc\<in>set nbrs. stay_or_move env (location (allNodes_table ?s1 ! cur)) loc"
    by simp_all
  from Cons.IH [OF 1(1) 2 this] show ?case
    by (simp add: Let_def ivs_def)
qed

lemma findPath_expand_holding:
  assumes rc: "reservation_contract env"
    and ht: "ht = getHoldingTime env (goal_location env) (length_min env)"
    and inv: "findPath_inv env s" and gi: "goal_intervals_inv env ht (allNodes_table s)"
    and c: "cur < length (allNodes_table s)" "\<not> is_goal (allNodes_table s ! cur)"
  shows "goal_intervals_inv env ht (allNodes_table (snd (findPath_expand env cur iv s)))"
proof -
  let ?s1 = "findPath_neighbors env cur (getNeighbors env (location (allNodes_table s ! cur))) s"
  have mv: "\<forall>loc\<in>set (getNeighbors env (location (allNodes_table s ! cur))).
          stay_or_move env (location (allNodes_table s ! cur)) loc"
    by (simp add: stay_or_move_def)
  from findPath_neighbors_inv [OF inv c mv]
  have 1: "findPath_inv env ?s1" "allNodes_table ?s1 ! cur = allNodes_table s ! cur"
    "length (allNodes_table s) \<le> length (allNodes_table ?s1)"
    by simp_all
  from findPath_neighbors_holding [OF rc ht inv gi c mv]
  have 2: "goal_intervals_inv env ht (allNodes_table ?s1)" .
  from 1 c have c1: "cur < length (allNodes_table ?s1)"
    by simp
  define cn where "cn = allNodes_table ?s1 ! cur"
  define r where "r = find_safe_interval env iv (location cn) (get_1 (interval cn))"
  show ?thesis
  proof (cases "fst r")
    case False
    with 2 show ?thesis
      by (simp add: findPath_expand_def findPath_wait_def Let_def r_def cn_def case_prod_beta)
  next
    case True
    then have r: "find_safe_interval env iv (location cn) (get_1 (interval cn)) = (True, snd r)"
      unfolding r_def by (metis prod.collapse)
    have "location cn = goal_location env \<longrightarrow>
            max (timestep cn + 1) (get_0 (snd r)) < get_1 (snd r) \<and>
            (get_0 (snd r) < ht \<longrightarrow> get_1 (snd r) \<le> ht)"
    proof
      assume g: "location cn = goal_location env"
      with goal_intervals_node(1) [OF 2 c1] have "timestep cn < get_1 (interval cn)"
        by (simp add: cn_def)
      moreover from rc r g have "get_1 (interval cn) \<le> get_0 (snd r)"
        "get_0 (snd r) < get_1 (snd r)" "get_0 (snd r) < ht \<longrightarrow> get_1 (snd r) \<le> ht"
        unfolding reservation_contract_def Let_def ht by metis+
      ultimately show "max (timestep cn + 1) (get_0 (snd r)) < get_1 (snd r) \<and>
            (get_0 (snd r) < ht \<longrightarrow> get_1 (snd r) \<le> ht)"
        by simp
    qed
    from generateChildToFocal_holding [OF 1(1) 2 c1, of "location cn" "snd r" "h_val cn"] this
    have "goal_intervals_inv env ht
            (allNodes_table (generateChildToFocal env (snd r) cur (location cn) (h_val cn) ?s1))"
      by (simp add: cn_def)
    with True show ?thesis
      by (simp add: findPath_expand_def findPath_wait_def Let_def r_def cn_def case_prod_beta)
  qed
qed

lemma findPath_goal_node_holding:
  assumes inv: "findPath_inv env s" and gi: "goal_intervals_inv env ht (allNodes_table s)"
    and c: "cur < length (allNodes_table s)" "\<not> is_goal (allNodes_table s ! cur)"
      "location (allNodes_table s ! cur) = goal_location env"
      "ht \<le> timestep (allNodes_table s ! cur)"
    and r: "findPath_goal_node cur fc s = Inr s'"
  shows "goal_intervals_inv env ht (allNodes_table s')"
proof -
  define ns where "ns = allNodes_table s"
  define goal where "goal = (ns ! cur)\<lparr>is_goal := True, parent := Some cur,
      num_of_conflicts := num_of_conflicts (ns ! cur) + fc\<rparr>"
  from inv have tree: "search_tree env ns"
    by (simp add: findPath_inv_def ns_def)
  then have pv: "\<forall>a<length ns. \<forall>p. parent (ns ! a) = Some p \<longrightarrow> p < length ns"
    using search_tree_parent_valid by blast
  have gi': "goal_intervals_inv env ht ns" and cl: "cur < length ns"
    using gi c by (simp_all add: ns_def)
  have gf: "location goal = location (ns ! cur)" "timestep goal = timestep (ns ! cur)"
    "interval goal = interval (ns ! cur)" "parent goal = Some cur" "is_goal goal"
    "getFVal goal = getFVal (ns ! cur)"
    by (simp_all add: goal_def getFVal_def)
  have n1: "timestep goal < get_1 (interval goal)"
    "get_0 (interval goal) < ht \<longrightarrow> get_1 (interval goal) \<le> ht"
    using goal_intervals_node [OF gi' cl] c(3) by (simp_all add: gf ns_def)
  have n4: "ht \<le> getFVal goal"
    using goal_intervals_FVal [OF gi' cl] by (simp add: gf)
  have n2: "ht \<le> timestep (ns ! cur)"
    using c(4) by (simp add: ns_def)
  show ?thesis
  proof (cases "allNodes_find ns goal")
    case None
    with r have s': "allNodes_table s' = ns @ [goal\<lparr>in_openlist := True\<rparr>]"
      by (auto simp: findPath_goal_node_def Let_def ns_def goal_def)
    have "goal_intervals_inv env ht (ns @ [goal\<lparr>in_openlist := True\<rparr>])"
      using gi' pv n1 n2 n4 cl by (intro goal_intervals_append) (simp_all add: gf)
    with s' show ?thesis by simp
  next
    case (Some e)
    then have e: "e < length ns" "eqnode (ns ! e) goal"
      by (simp_all add: allNodes_find_Some)
    then have ge: "is_goal (ns ! e)"
      by (simp add: eqnode_def gf)
    with c(2) have ne: "cur \<noteq> e"
      by (auto simp: ns_def)
    from Some r have "allNodes_table s' = ns \<or> allNodes_table s' = ns[e := copy (ns ! e) goal]"
      by (auto simp: findPath_goal_node_def Let_def ns_def goal_def split: if_splits)
    moreover have "goal_intervals_inv env ht (ns[e := copy (ns ! e) goal])"
    proof (rule goal_intervals_overwrite [OF gi' e(1)])
      show "location (copy (ns ! e) goal) = goal_location env \<longrightarrow>
            timestep (copy (ns ! e) goal) < get_1 (interval (copy (ns ! e) goal)) \<and>
            (get_0 (interval (copy (ns ! e) goal)) < ht \<longrightarrow>
             get_1 (interval (copy (ns ! e) goal)) \<le> ht)"
        using n1 by simp
      show "is_goal (copy (ns ! e) goal) \<longrightarrow>
            (\<forall>p. parent (copy (ns ! e) goal) = Some p \<longrightarrow> p \<noteq> e \<and> ht \<le> timestep (ns ! p))"
        using ne n2 by (simp add: gf)
      show "ht \<le> getFVal (copy (ns ! e) goal)"
        using n4 by simp
      show "\<forall>a<length ns. is_goal (ns ! a) \<longrightarrow> parent (ns ! a) = Some e \<longrightarrow>
              ht \<le> timestep (copy (ns ! e) goal)"
      proof (intro allI impI)
        fix a assume "a < length ns" "parent (ns ! a) = Some e"
        from search_tree_link [OF tree this] ge
        show "ht \<le> timestep (copy (ns ! e) goal)" by simp
      qed
    qed
    ultimately show ?thesis
      using gi' by auto
  qed
qed

lemma findPath_iteration_holding:
  assumes rc: "reservation_contract env"
    and ht: "ht = getHoldingTime env (goal_location env) (length_min env)"
    and inv: "findPath_inv env s" and gi: "goal_intervals_inv env ht (allNodes_table s)"
    and ne: "focal_list s \<noteq> []"
    and r: "findPath_iteration env ht iv s = Some (Inr ctl)"
  shows "case ctl of
           Continue iv' s' \<Rightarrow> goal_intervals_inv env ht (allNodes_table s')
         | Break p s' \<Rightarrow> goal_intervals_inv env ht (allNodes_table s') \<and> ht \<le> int (length p) - 1"
proof -
  define cur where "cur = fst (pop_focal s)"
  define s1 where "s1 = snd (pop_focal s)"
  define c where "c = allNodes_table s1 ! cur"
  from pop_focal_inv [OF inv ne]
  have cl: "cur < length (allNodes_table s)" and inv1: "findPath_inv env s1"
    and t1: "allNodes_table s1 =
             (allNodes_table s)[cur := (allNodes_table s ! cur)\<lparr>in_openlist := False\<rparr>]"
    by (simp_all add: cur_def s1_def)
  then have cl1: "cur < length (allNodes_table s1)"
    by simp
  from inv1 have tree1: "search_tree env (allNodes_table s1)"
    by (simp add: findPath_inv_def)
  have gi1: "goal_intervals_inv env ht (allNodes_table s1)"
    unfolding t1 using gi by (rule goal_intervals_flag)
  have len: "ht \<le> int (length p) - 1"
    if "updatePath (allNodes_table s1) g = Some (Inr p)" "g < length (allNodes_table s1)"
      "\<not> is_goal (allNodes_table s1 ! g)" "ht \<le> timestep (allNodes_table s1 ! g)" for g p
  proof -
    from updatePath_result [OF tree1 that(2,3)] that(1)
    have "length p = nat (timestep (allNodes_table s1 ! g)) + 1"
      by auto
    moreover from search_tree_nonneg [OF tree1 that(2)]
    have "0 \<le> timestep (allNodes_table s1 ! g)" .
    ultimately show ?thesis
      using that(4) by simp
  qed
  from r show ?thesis
  proof (cases rule: findPath_iteration_cases)
    case (goal_popped p path)
    from search_tree_link [OF tree1 cl1] goal_popped(2)
    have p: "p < length (allNodes_table s1)" "\<not> is_goal (allNodes_table s1 ! p)"
      by (simp_all add: cur_def s1_def)
    from goal_intervals_parent [OF gi1 cl1] goal_popped(1,2)
    have "ht \<le> timestep (allNodes_table s1 ! p)"
      by (simp add: cur_def s1_def)
    from len [OF _ p this] goal_popped(3,4) gi1 show ?thesis
      by (simp add: s1_def)
  next
    case (direct path)
    from len [OF _ cl1, of path] direct gi1 show ?thesis
      by (simp add: s1_def cur_def)
  next
    case (virtual s2)
    from virtual(1-4) have c: "\<not> is_goal (allNodes_table s1 ! cur)"
      "location (allNodes_table s1 ! cur) = goal_location env"
      "ht \<le> timestep (allNodes_table s1 ! cur)"
      by (simp_all add: cur_def s1_def)
    from virtual(6) have g: "findPath_goal_node cur
        (getFutureNumOfCollisions env (location (allNodes_table s1 ! cur))
           (timestep (allNodes_table s1 ! cur))) s1 = Inr s2"
      by (simp add: cur_def s1_def)
    from findPath_goal_node_inv [OF inv1 cl1 c(1,2) g]
    have 2: "findPath_inv env s2" "allNodes_table s2 ! cur = allNodes_table s1 ! cur"
      "length (allNodes_table s1) \<le> length (allNodes_table s2)"
      by simp_all
    from findPath_goal_node_holding [OF inv1 gi1 cl1 c g]
    have "goal_intervals_inv env ht (allNodes_table s2)" .
    from findPath_expand_holding [OF rc ht 2(1) this, of cur iv] 2 cl1 c(1) virtual(7)
    show ?thesis
      by (simp add: cur_def s1_def)
  next
    case plain
    then have c: "\<not> is_goal (allNodes_table s1 ! cur)"
      by (simp add: cur_def s1_def)
    from findPath_expand_holding [OF rc ht inv1 gi1 cl1 c, of iv] plain(3)
    show ?thesis
      by (simp add: cur_def s1_def)
  qed
qed

lemma findPath_loop_holding:
  assumes "findPath_loop env ht iv s = Some r"
    and "reservation_contract env"
    and "ht = getHoldingTime env (goal_location env) (length_min env)"
    and "findPath_inv env s" "goal_intervals_inv env ht (allNodes_table s)"
  shows "case r of Inl e \<Rightarrow> True
         | Inr (p, sf) \<Rightarrow> goal_intervals_inv env ht (allNodes_table sf) \<and>
                          (p = [] \<or> ht \<le> int (length p) - 1)"
  using assms
proof (induction rule: findPath_loop.raw_induct [rotated 1, consumes 1])
  case (1 loop env ht iv s r)
  show ?case
  proof (cases "focal_list s = []")
    case True
    with 1(2,6) show ?thesis by auto
  next
    case False
    with 1(2) obtain x where x: "findPath_iteration env ht iv s = Some x"
      by (auto split: option.splits)
    show ?thesis
    proof (cases x)
      case (Inl e)
      with 1(2) False x show ?thesis by auto
    next
      case (Inr ctl)
      note a = findPath_iteration_inv [OF 1(5) False x [unfolded Inr]]
      note b = findPath_iteration_holding [OF 1(3,4,5,6) False x [unfolded Inr]]
      show ?thesis
      proof (cases ctl)
        case (Break p s')
        with 1(2) False x Inr b show ?thesis by auto
      next
        case (Continue iv' s')
        with 1(2) False x Inr have "loop env ht iv' s' = Some r"
          by simp
        moreover from Continue a b
        have "findPath_inv env s'" "goal_intervals_inv env ht (allNodes_table s')"
          by simp_all
        ultimately show ?thesis
          using 1(3,4) by (intro 1(1))
      qed
    qed
  qed
qed

lemma findPath_start_holding:
  assumes "reservation_contract env" "allNodes_table s0 = []"
  shows "goal_intervals_inv env (getHoldingTime env (goal_location env) (length_min env))
           (allNodes_table (findPath_start env s0))"
  using assms
  by (auto simp: goal_intervals_inv_def findPath_start_def new_SIPPNode_def Let_def
                 reservation_contract_def getFVal_def)

text \<open>
  Claim C10. Let the reservation table keep its contract for the goal cell (intervals are
  non-empty, contain the arrival they are returned for, and are clipped at the holding
  time), and let \<open>findPath\<close> be called on an idle planner and return a non-empty path \<open>p\<close>.
  Then the arrival time step \<open>|p| - 1\<close> is at least the holding time
  \<open>getHoldingTime(goal_location, length_min)\<close>; the start node's \<open>h\<close> value is at least the
  holding time, and so is the \<open>f\<close> value of every node in the table when the search ends.
\<close>

theorem findPath_holding_time:
  assumes "reservation_contract env" "allNodes_table s0 = []" "focal_list s0 = []"
    and "findPath env s0 = Some (Inr (p, s))" "p \<noteq> []"
  shows "getHoldingTime env (goal_location env) (length_min env) \<le> int (length p) - 1 \<and>
         getHoldingTime env (goal_location env) (length_min env)
           \<le> h_val (allNodes_table (findPath_start env s0) ! 0) \<and>
         (\<exists>sf. findPath_loop env (getHoldingTime env (goal_location env) (length_min env))
                 (get_first_safe_interval env (start_location env)) (findPath_start env s0) =
                 Some (Inr (p, sf)) \<and>
               (\<forall>a<length (allNodes_table sf).
                  getHoldingTime env (goal_location env) (length_min env)
                    \<le> getFVal (allNodes_table sf ! a)))"
proof -
  let ?ht = "getHoldingTime env (goal_location env) (length_min env)"
  let ?iv = "get_first_safe_interval env (start_location env)"
  from assms(4,5) obtain sf where
    loop: "findPath_loop env ?ht ?iv (findPath_start env s0) = Some (Inr (p, sf))"
    by (auto simp: findPath_def Let_def split: if_splits option.splits sum.splits)
  from findPath_loop_holding [OF loop assms(1) refl findPath_start_inv [OF assms(2,3)]
          findPath_start_holding [OF assms(1,2)]] assms(5)
  have "goal_intervals_inv env ?ht (allNodes_table sf)" "?ht \<le> int (length p) - 1"
    by auto
  moreover have "?ht \<le> h_val (allNodes_table (findPath_start env s0) ! 0)"
    using assms(2) by (simp add: findPath_start_def new_SIPPNode_def Let_def)
  ultimately show ?thesis
    using loop goal_intervals_FVal by blast
qed

lemma grid_env_contract: "reservation_contract grid_env"
  unfolding reservation_contract_def Let_def
  by (auto simp: grid_env_def SI_def get_0_def get_1_def split: if_splits list.splits)

theorem findPath_holding_time_witness:
  "reservation_contract grid_env \<and> allNodes_table idle_SIPP = [] \<and> focal_list idle_SIPP = [] \<and>
   findPath grid_env idle_SIPP =
     Some (Inr ([0, 3, 4, 5, 5, 5, 2], idle_SIPP\<lparr>num_expanded := 9, num_generated := 10\<rparr>)) \<and>
   getHoldingTime grid_env (goal_location grid_env) (length_min grid_env) = 3 \<and>
   (3 :: int) \<le> int (length [0, 3, 4, 5, 5, 5, 2 :: int]) - 1"
proof -
  have a: "allNodes_table idle_SIPP = []" "focal_list idle_SIPP = []"
    by (simp_all add: idle_SIPP_def)
  have r: "findPath grid_env idle_SIPP =
     Some (Inr ([0, 3, 4, 5, 5, 5, 2], idle_SIPP\<lparr>num_expanded := 9, num_generated := 10\<rparr>))"
    by code_simp
  have ne: "[0, 3, 4, 5, 5, 5, 2 :: int] \<noteq> []"
    by simp
  have h: "getHoldingTime grid_env (goal_location grid_env) (length_min grid_env) = 3"
    by (simp add: grid_env_def)
  from findPath_holding_time [OF grid_env_contract a r ne]
  have "getHoldingTime grid_env (goal_location grid_env) (length_min grid_env)
          \<le> int (length [0, 3, 4, 5, 5, 5, 2 :: int]) - 1"
    by blast
  with grid_env_contract a r h show ?thesis
    by simp
qed

text \<open>
  The contract is needed. With unclipped intervals the goal cell is first reached at time
  4, where one future collision makes the search create a virtual goal node; the node
  reached is later overwritten in place by an arrival at time 2, and when the virtual goal
  node is popped the path is reconstructed from its parent as it is then: three entries,
  below the holding time 3.
\<close>

lemma findPath_unclipped_intervals:
  "findPath unclipped_env idle_SIPP =
     Some (Inr ([0, 1, 2], idle_SIPP\<lparr>num_expanded := 8, num_generated := 9\<rparr>)) \<and>
   getHoldingTime unclipped_env (goal_location unclipped_env) (length_min unclipped_env) = 3"
  by code_simp

subsection \<open>FOCAL and the node table in mode A\<close>

lemma eqnode_sym: "eqnode a b \<Longrightarrow> eqnode b a"
  by (simp add: eqnode_def)

lemma eqnode_trans: "eqnode a b \<Longrightarrow> eqnode b c \<Longrightarrow> eqnode a c"
  by (simp add: eqnode_def)

lemma eqnode_flag [simp]:
  "eqnode (a\<lparr>in_openlist := x\<rparr>) b = eqnode a b" "eqnode a (b\<lparr>in_openlist := x\<rparr>) = eqnode a b"
  by (simp_all add: eqnode_def)

lemma eqnode_copy [simp]: "eqnode (copy a b) c = eqnode b c" "eqnode c (copy a b) = eqnode c b"
  by (simp_all add: eqnode_def)

lemma keys_unique_flag:
  assumes "keys_unique ns"
  shows "keys_unique (ns[a := (ns ! a)\<lparr>in_openlist := b\<rparr>])"
proof -
  let ?ns' = "ns[a := (ns ! a)\<lparr>in_openlist := b\<rparr>]"
  have "eqnode (?ns' ! i) (?ns' ! j) = eqnode (ns ! i) (ns ! j)"
    if "i < length ns" "j < length ns" for i j
    using that by (cases "i = a"; cases "j = a"; simp)
  with assms show ?thesis
    by (simp add: keys_unique_def)
qed

lemma keys_unique_append:
  assumes k: "keys_unique ns" and n: "\<forall>x\<in>set ns. \<not> eqnode x n"
  shows "keys_unique (ns @ [n])"
  unfolding keys_unique_def
proof (intro allI impI)
  fix a b assume ab: "a < length (ns @ [n])" "b < length (ns @ [n])"
    "eqnode ((ns @ [n]) ! a) ((ns @ [n]) ! b)"
  show "a = b"
  proof (cases "a < length ns")
    case a: True
    show ?thesis
    proof (cases "b < length ns")
      case True
      with a ab k show ?thesis
        by (simp add: keys_unique_def nth_append)
    next
      case False
      with ab have "b = length ns" by simp
      with a ab have "eqnode (ns ! a) n"
        by (simp add: nth_append)
      with n a show ?thesis
        by (meson nth_mem)
    qed
  next
    case a: False
    with ab have a': "a = length ns" by simp
    show ?thesis
    proof (cases "b < length ns")
      case True
      with a' ab have "eqnode n (ns ! b)"
        by (simp add: nth_append)
      with n True show ?thesis
        by (meson nth_mem eqnode_sym)
    next
      case False
      with ab a' show ?thesis by simp
    qed
  qed
qed

lemma keys_unique_overwrite:
  assumes k: "keys_unique ns" and e: "e < length ns" "eqnode (ns ! e) n"
  shows "keys_unique (ns[e := n])"
proof -
  have "eqnode (ns[e := n] ! i) (ns[e := n] ! j) = eqnode (ns ! i) (ns ! j)"
    if "i < length ns" "j < length ns" for i j
    using that e by (cases "i = e"; cases "j = e"; auto simp: eqnode_def)
  with k show ?thesis
    by (simp add: keys_unique_def)
qed

lemma goal_open_flag:
  assumes "goal_open ns" "\<not> is_goal (ns ! a)"
  shows "goal_open (ns[a := (ns ! a)\<lparr>in_openlist := b\<rparr>])"
  unfolding goal_open_def
proof (intro allI impI)
  fix i assume i: "i < length (ns[a := (ns ! a)\<lparr>in_openlist := b\<rparr>])"
    "is_goal (ns[a := (ns ! a)\<lparr>in_openlist := b\<rparr>] ! i)"
  with assms show "in_openlist (ns[a := (ns ! a)\<lparr>in_openlist := b\<rparr>] ! i)"
    by (cases "i = a") (simp_all add: goal_open_def)
qed

lemma goal_open_append:
  assumes "goal_open ns" "is_goal n \<longrightarrow> in_openlist n"
  shows "goal_open (ns @ [n])"
  unfolding goal_open_def
proof (intro allI impI)
  fix i assume i: "i < length (ns @ [n])" "is_goal ((ns @ [n]) ! i)"
  show "in_openlist ((ns @ [n]) ! i)"
  proof (cases "i < length ns")
    case True
    with i assms(1) show ?thesis
      by (simp add: goal_open_def nth_append)
  next
    case False
    with i have "i = length ns" by simp
    with i assms(2) show ?thesis by simp
  qed
qed

lemma goal_open_overwrite:
  assumes "goal_open ns" "is_goal n \<longrightarrow> in_openlist n"
  shows "goal_open (ns[e := n])"
  unfolding goal_open_def
proof (intro allI impI)
  fix i assume i: "i < length (ns[e := n])" "is_goal (ns[e := n] ! i)"
  with assms show "in_openlist (ns[e := n] ! i)"
    by (cases "i = e") (simp_all add: goal_open_def)
qed


lemma focal_inv_pop:
  assumes f: "focal_inv s" and c: "cur \<in> set (focal_list s)"
    and s': "focal_list s' = remove1 cur (focal_list s)"
      "allNodes_table s' = (allNodes_table s)[cur := (allNodes_table s ! cur)\<lparr>in_openlist := False\<rparr>]"
  shows "focal_inv s'"
proof -
  from f have d: "distinct (focal_list s)"
    and fl: "\<And>a. a < length (allNodes_table s) \<Longrightarrow>
                in_openlist (allNodes_table s ! a) \<longleftrightarrow> a \<in> set (focal_list s)"
    by (simp_all add: focal_inv_def)
  have "in_openlist (allNodes_table s' ! a) \<longleftrightarrow> a \<in> set (focal_list s')"
    if a: "a < length (allNodes_table s')" for a
  proof (cases "a = cur")
    case True
    with a d show ?thesis
      by (simp add: s')
  next
    case False
    with a d fl [of a] show ?thesis
      by (simp add: s')
  qed
  with d show ?thesis
    by (simp add: focal_inv_def s'(1))
qed

lemma focal_inv_new:
  assumes f: "focal_inv s" and b: "\<forall>a\<in>set (focal_list s). a < length (allNodes_table s)"
    and s': "focal_list s' = focal_list s @ [length (allNodes_table s)]"
      "allNodes_table s' = allNodes_table s @ [n]" and n: "in_openlist n"
  shows "focal_inv s'"
proof -
  from f have d: "distinct (focal_list s)"
    and fl: "\<And>a. a < length (allNodes_table s) \<Longrightarrow>
                in_openlist (allNodes_table s ! a) \<longleftrightarrow> a \<in> set (focal_list s)"
    by (simp_all add: focal_inv_def)
  from b have nm: "length (allNodes_table s) \<notin> set (focal_list s)"
    by auto
  have "in_openlist (allNodes_table s' ! a) \<longleftrightarrow> a \<in> set (focal_list s')"
    if a: "a < length (allNodes_table s')" for a
  proof (cases "a < length (allNodes_table s)")
    case True
    with fl [of a] show ?thesis
      by (simp add: s' nth_append)
  next
    case False
    with a have "a = length (allNodes_table s)"
      by (simp add: s')
    with n show ?thesis
      by (simp add: s')
  qed
  with d nm show ?thesis
    by (simp add: focal_inv_def s'(1))
qed

lemma focal_inv_reopen:
  assumes f: "focal_inv s" and e: "e < length (allNodes_table s)"
    "\<not> in_openlist (allNodes_table s ! e)"
    and s': "focal_list s' = focal_list s @ [e]" "allNodes_table s' = (allNodes_table s)[e := n]"
    and n: "in_openlist n"
  shows "focal_inv s'"
proof -
  from f have d: "distinct (focal_list s)"
    and fl: "\<And>a. a < length (allNodes_table s) \<Longrightarrow>
                in_openlist (allNodes_table s ! a) \<longleftrightarrow> a \<in> set (focal_list s)"
    by (simp_all add: focal_inv_def)
  from fl [OF e(1)] e(2) have nm: "e \<notin> set (focal_list s)"
    by simp
  have "in_openlist (allNodes_table s' ! a) \<longleftrightarrow> a \<in> set (focal_list s')"
    if a: "a < length (allNodes_table s')" for a
  proof (cases "a = e")
    case True
    with n e show ?thesis
      by (simp add: s')
  next
    case False
    with a fl [of a] show ?thesis
      by (simp add: s')
  qed
  with d nm show ?thesis
    by (simp add: focal_inv_def s'(1))
qed

lemma focal_inv_update:
  assumes f: "focal_inv s" and e: "e < length (allNodes_table s)"
    and s': "focal_list s' = focal_list s" "allNodes_table s' = (allNodes_table s)[e := n]"
    and n: "in_openlist n = in_openlist (allNodes_table s ! e)"
  shows "focal_inv s'"
proof -
  from f have d: "distinct (focal_list s)"
    and fl: "\<And>a. a < length (allNodes_table s) \<Longrightarrow>
                in_openlist (allNodes_table s ! a) \<longleftrightarrow> a \<in> set (focal_list s)"
    by (simp_all add: focal_inv_def)
  have "in_openlist (allNodes_table s' ! a) \<longleftrightarrow> a \<in> set (focal_list s')"
    if a: "a < length (allNodes_table s')" for a
  proof (cases "a = e")
    case True
    with n e fl [of e] show ?thesis
      by (simp add: s')
  next
    case False
    with a fl [of a] show ?thesis
      by (simp add: s')
  qed
  with d show ?thesis
    by (simp add: focal_inv_def s'(1))
qed

lemma goal_behind_flag [simp]:
  "goal_behind env (n\<lparr>in_openlist := b\<rparr>) g = goal_behind env n g"
  "goal_behind env n (g\<lparr>in_openlist := b\<rparr>) = goal_behind env n g"
  "goal_strictly_behind env (n\<lparr>in_openlist := b\<rparr>) g = goal_strictly_behind env n g"
  "goal_strictly_behind env n (g\<lparr>in_openlist := b\<rparr>) = goal_strictly_behind env n g"
  by (simp_all add: goal_behind_def goal_strictly_behind_def)

lemma goal_strictly_behind_imp: "goal_strictly_behind env n g \<Longrightarrow> goal_behind env n g"
  by (auto simp: goal_behind_def goal_strictly_behind_def)

lemma goal_current_node:
  assumes "goal_current env ns" "a < length ns" "is_goal (ns ! a)" "parent (ns ! a) = Some p"
  shows "goal_behind env (ns ! p) (ns ! a)"
    and "in_openlist (ns ! p) \<Longrightarrow> goal_strictly_behind env (ns ! p) (ns ! a)"
  using assms unfolding goal_current_def by blast+

lemma goal_current_flag:
  assumes g: "goal_current env ns" and c: "\<not> is_goal (ns ! c)" "c < length ns"
  shows "goal_current env (ns[c := (ns ! c)\<lparr>in_openlist := False\<rparr>])"
  unfolding goal_current_def
proof (intro allI impI)
  let ?ns' = "ns[c := (ns ! c)\<lparr>in_openlist := False\<rparr>]"
  fix a p assume a: "a < length ?ns'" "is_goal (?ns' ! a)" "parent (?ns' ! a) = Some p"
  from a(1,2) c have ac: "a \<noteq> c"
    by (cases "a = c") simp_all
  with a have a': "a < length ns" "is_goal (ns ! a)" "parent (ns ! a) = Some p" "?ns' ! a = ns ! a"
    by simp_all
  show "goal_behind env (?ns' ! p) (?ns' ! a) \<and>
        (in_openlist (?ns' ! p) \<longrightarrow> goal_strictly_behind env (?ns' ! p) (?ns' ! a))"
  proof (cases "p = c")
    case True
    with goal_current_node(1) [OF g a'(1,2,3)] a'(4) c(2) show ?thesis
      by simp
  next
    case False
    with goal_current_node [OF g a'(1,2,3)] a'(4) show ?thesis
      by simp
  qed
qed

lemma goal_current_append:
  assumes g: "goal_current env ns" and t: "search_tree env ns"
    and n: "is_goal n \<Longrightarrow>
            \<exists>p<length ns. parent n = Some p \<and> goal_behind env (ns ! p) n \<and> \<not> in_openlist (ns ! p)"
  shows "goal_current env (ns @ [n])"
  unfolding goal_current_def
proof (intro allI impI)
  fix a p assume a: "a < length (ns @ [n])" "is_goal ((ns @ [n]) ! a)"
    "parent ((ns @ [n]) ! a) = Some p"
  show "goal_behind env ((ns @ [n]) ! p) ((ns @ [n]) ! a) \<and>
        (in_openlist ((ns @ [n]) ! p) \<longrightarrow> goal_strictly_behind env ((ns @ [n]) ! p) ((ns @ [n]) ! a))"
  proof (cases "a < length ns")
    case True
    with a have a': "is_goal (ns ! a)" "parent (ns ! a) = Some p"
      by (simp_all add: nth_append)
    from search_tree_parent_valid [OF t True a'(2)] have "p < length ns" .
    with goal_current_node [OF g True a'] True show ?thesis
      by (simp add: nth_append)
  next
    case False
    with a have "a = length ns" by simp
    with a n show ?thesis
      by (auto simp: nth_append)
  qed
qed

lemma goal_current_overwrite:
  assumes g: "goal_current env ns" and t: "search_tree env ns" and e: "e < length ns"
    and k: "is_goal n = is_goal (ns ! e)"
    and nongoal: "\<not> is_goal n \<Longrightarrow>
       location n = location (ns ! e) \<and>
       (timestep n < timestep (ns ! e) \<or>
        (timestep (ns ! e) = timestep n \<and> num_of_conflicts n < num_of_conflicts (ns ! e)))"
    and goal: "is_goal n \<Longrightarrow>
       \<exists>p. parent n = Some p \<and> p \<noteq> e \<and> goal_behind env (ns ! p) n \<and> \<not> in_openlist (ns ! p)"
  shows "goal_current env (ns[e := n])"
  unfolding goal_current_def
proof (intro allI impI)
  let ?ns' = "ns[e := n]"
  fix a p assume a: "a < length ?ns'" "is_goal (?ns' ! a)" "parent (?ns' ! a) = Some p"
  show "goal_behind env (?ns' ! p) (?ns' ! a) \<and>
        (in_openlist (?ns' ! p) \<longrightarrow> goal_strictly_behind env (?ns' ! p) (?ns' ! a))"
  proof (cases "a = e")
    case True
    with a e have "is_goal n" "parent n = Some p"
      by simp_all
    with goal True e show ?thesis
      by auto
  next
    case ae: False
    with a have a': "a < length ns" "is_goal (ns ! a)" "parent (ns ! a) = Some p"
      "?ns' ! a = ns ! a"
      by simp_all
    note gc = goal_current_node [OF g a'(1,2,3)]
    show ?thesis
    proof (cases "p = e")
      case False
      with gc a'(4) show ?thesis by simp
    next
      case True
      from search_tree_link [OF t a'(1,3)] True have "\<not> is_goal (ns ! e)"
        by simp
      with k nongoal have b: "location n = location (ns ! e)"
        "timestep n < timestep (ns ! e) \<or>
         (timestep (ns ! e) = timestep n \<and> num_of_conflicts n < num_of_conflicts (ns ! e))"
        by simp_all
      from gc(1) True have "goal_behind env (ns ! e) (ns ! a)"
        by simp
      with b have "goal_strictly_behind env n (ns ! a)"
        unfolding goal_behind_def goal_strictly_behind_def by auto
      with True e a'(4) show ?thesis
        by (simp add: goal_strictly_behind_imp)
    qed
  qed
qed

lemma generateChildToFocal_queue:
  assumes q: "queue_inv env s" and c: "cur < length (allNodes_table s)"
    "\<not> is_goal (allNodes_table s ! cur)"
    and mv: "stay_or_move env (location (allNodes_table s ! cur)) loc"
  shows "queue_inv env (generateChildToFocal env iv cur loc h s)"
proof -
  define nxt where "nxt = generateChildToFocal_next env iv cur loc h s"
  define ns where "ns = allNodes_table s"
  let ?s' = "generateChildToFocal env iv cur loc h s"
  from q have inv: "findPath_inv env s" and f: "focal_inv s" and k: "keys_unique ns"
    and go: "goal_open ns" and gc: "goal_current env ns"
    by (simp_all add: queue_inv_def ns_def)
  from inv have tree: "search_tree env ns" and foc: "\<forall>a\<in>set (focal_list s). a < length ns"
    by (simp_all add: findPath_inv_def ns_def)
  from generateChildToFocal_inv [OF inv c mv] have inv': "findPath_inv env ?s'"
    by simp
  have nf: "\<not> is_goal nxt"
    by (simp add: nxt_def generateChildToFocal_next_fields)
  show ?thesis
  proof (cases rule: generateChildToFocal_effect [of env iv cur loc h s])
    case same
    with q show ?thesis by simp
  next
    case new
    let ?n = "nxt\<lparr>in_openlist := True\<rparr>"
    from new have s': "focal_list ?s' = focal_list s @ [length ns]" "allNodes_table ?s' = ns @ [?n]"
      by (simp_all add: ns_def nxt_def)
    from new(1) have "\<forall>x\<in>set ns. \<not> eqnode x ?n"
      by (auto simp: ns_def nxt_def dest: allNodes_find_None)
    with k have "keys_unique (ns @ [?n])"
      by (rule keys_unique_append)
    moreover have "focal_inv ?s'"
      by (rule focal_inv_new [OF f _ s' [unfolded ns_def]]) (use foc in \<open>simp_all add: ns_def\<close>)
    moreover have "goal_open (ns @ [?n])"
      using go by (rule goal_open_append) simp
    moreover have "goal_current env (ns @ [?n])"
      using gc tree nf by (intro goal_current_append) simp_all
    ultimately show ?thesis
      using inv' s'(2) by (simp add: queue_inv_def)
  next
    case (reopen e)
    let ?n = "(copy (ns ! e) nxt)\<lparr>in_openlist := True\<rparr>"
    from reopen have s': "focal_list ?s' = focal_list s @ [e]" "allNodes_table ?s' = ns[e := ?n]"
      by (simp_all add: ns_def nxt_def)
    from reopen have e: "e < length ns" "eqnode (ns ! e) nxt" "\<not> in_openlist (ns ! e)"
      "timestep nxt < timestep (ns ! e) \<or>
       (timestep (ns ! e) = timestep nxt \<and> num_of_conflicts nxt < num_of_conflicts (ns ! e))"
      by (simp_all add: ns_def nxt_def)
    have "keys_unique (ns[e := ?n])"
      using k e(1,2) by (intro keys_unique_overwrite) simp_all
    moreover have "focal_inv ?s'"
      by (rule focal_inv_reopen [OF f e(1,3) [unfolded ns_def] s' [unfolded ns_def]]) simp
    moreover have "goal_open (ns[e := ?n])"
      using go by (rule goal_open_overwrite) simp
    moreover have "goal_current env (ns[e := ?n])"
      using gc tree e nf by (intro goal_current_overwrite) (auto simp: eqnode_def)
    ultimately show ?thesis
      using inv' s'(2) by (simp add: queue_inv_def)
  next
    case (update e)
    let ?n = "copy (ns ! e) nxt"
    from update have s': "focal_list ?s' = focal_list s" "allNodes_table ?s' = ns[e := ?n]"
      by (simp_all add: ns_def nxt_def)
    from update have e: "e < length ns" "eqnode (ns ! e) nxt" "in_openlist (ns ! e)"
      "timestep nxt < timestep (ns ! e) \<or>
       (timestep (ns ! e) = timestep nxt \<and> num_of_conflicts nxt < num_of_conflicts (ns ! e))"
      by (simp_all add: ns_def nxt_def)
    have "keys_unique (ns[e := ?n])"
      using k e(1,2) by (intro keys_unique_overwrite) simp_all
    moreover have "focal_inv ?s'"
      by (rule focal_inv_update [OF f e(1) [unfolded ns_def] s' [unfolded ns_def]]) simp
    moreover have "goal_open (ns[e := ?n])"
      using go nf by (intro goal_open_overwrite) simp_all
    moreover have "goal_current env (ns[e := ?n])"
      using gc tree e nf by (intro goal_current_overwrite) (auto simp: eqnode_def)
    ultimately show ?thesis
      using inv' s'(2) by (simp add: queue_inv_def)
  qed
qed


lemma copy_flag: "copy a b = b\<lparr>in_openlist := in_openlist a\<rparr>"
  by (cases a, cases b) (simp add: copy_def)

lemma generateChildToFocal_goal_kept:
  assumes "g < length (allNodes_table s)" "is_goal (allNodes_table s ! g)"
  shows "allNodes_table (generateChildToFocal env iv cur loc h s) ! g = allNodes_table s ! g \<and>
         set (focal_list s) \<subseteq> set (focal_list (generateChildToFocal env iv cur loc h s))"
proof -
  let ?s' = "generateChildToFocal env iv cur loc h s"
  have nf: "\<not> is_goal (generateChildToFocal_next env iv cur loc h s)"
    by (simp add: generateChildToFocal_next_fields)
  show ?thesis
  proof (cases rule: generateChildToFocal_effect [of env iv cur loc h s])
    case same
    then show ?thesis by simp
  next
    case new
    then have "allNodes_table ?s' ! g = (allNodes_table s @
        [(generateChildToFocal_next env iv cur loc h s)\<lparr>in_openlist := True\<rparr>]) ! g"
      "focal_list ?s' = focal_list s @ [length (allNodes_table s)]"
      by simp_all
    with assms(1) show ?thesis
      by (auto simp: nth_append)
  next
    case (reopen e)
    from reopen(2) nf assms(2) have "e \<noteq> g"
      unfolding eqnode_def by metis
    moreover from reopen(5) have "allNodes_table ?s' ! g = (allNodes_table s)
        [e := (copy (allNodes_table s ! e) (generateChildToFocal_next env iv cur loc h s))
                \<lparr>in_openlist := True\<rparr>] ! g"
      "focal_list ?s' = focal_list s @ [e]"
      by simp_all
    ultimately show ?thesis
      by auto
  next
    case (update e)
    from update(2) nf assms(2) have "e \<noteq> g"
      unfolding eqnode_def by metis
    moreover from update(5) have "allNodes_table ?s' ! g = (allNodes_table s)
        [e := copy (allNodes_table s ! e) (generateChildToFocal_next env iv cur loc h s)] ! g"
      "focal_list ?s' = focal_list s"
      by simp_all
    ultimately show ?thesis
      by simp
  qed
qed

lemma findPath_intervals_preserves:
  assumes step: "\<And>iv s. Q s \<Longrightarrow> Q (generateChildToFocal env iv cur loc h s)"
  shows "Q s \<Longrightarrow> Q (findPath_intervals env cur loc h ivs s)"
proof (induction ivs arbitrary: s)
  case Nil
  then show ?case by simp
next
  case (Cons iv ivs)
  from Cons.prems have "Q (generateChildToFocal env iv cur loc h s)"
    by (rule step)
  then have "Q (findPath_intervals env cur loc h ivs (generateChildToFocal env iv cur loc h s))"
    by (rule Cons.IH)
  with Cons.prems show ?case
    by (simp only: findPath_intervals.simps Let_def split: if_split) simp
qed

lemma findPath_neighbors_preserves:
  assumes step: "\<And>iv loc s. Q s \<Longrightarrow> loc \<in> set nbrs \<Longrightarrow>
             Q (generateChildToFocal env iv cur loc (my_heuristic env loc) s)"
  shows "Q s \<Longrightarrow> Q (findPath_neighbors env cur nbrs s)"
  using step
proof (induction nbrs arbitrary: s)
  case Nil
  then show ?case by simp
next
  case (Cons loc nbrs)
  let ?s1 = "findPath_intervals env cur loc (my_heuristic env loc)
      (get_safe_intervals env (location (allNodes_table s ! cur)) loc
         (timestep (allNodes_table s ! cur) + 1) (get_1 (interval (allNodes_table s ! cur)) + 1)) s"
  have 1: "Q ?s1"
  proof (rule findPath_intervals_preserves)
    show "Q s" by fact
  next
    fix iv s' assume "Q s'"
    then show "Q (generateChildToFocal env iv cur loc (my_heuristic env loc) s')"
      by (rule Cons.prems(2)) simp
  qed
  have "Q (findPath_neighbors env cur nbrs ?s1)"
  proof (rule Cons.IH)
    show "Q ?s1" by fact
  next
    fix iv l s' assume "Q s'" "l \<in> set nbrs"
    then show "Q (generateChildToFocal env iv cur l (my_heuristic env l) s')"
      by (intro Cons.prems(2)) simp_all
  qed
  then show ?case
    by (simp only: findPath_neighbors.simps Let_def)
qed

lemma findPath_expand_preserves:
  assumes step: "\<And>iv loc h s'. Q s' \<Longrightarrow> stay_or_move env (location (allNodes_table s ! cur)) loc \<Longrightarrow>
                   Q (generateChildToFocal env iv cur loc h s')"
    and loc: "\<And>s'. Q s' \<Longrightarrow> location (allNodes_table s' ! cur) = location (allNodes_table s ! cur)"
    and s: "Q s"
  shows "Q (snd (findPath_expand env cur iv s))"
proof -
  let ?s1 = "findPath_neighbors env cur (getNeighbors env (location (allNodes_table s ! cur))) s"
  have 1: "Q ?s1"
  proof (rule findPath_neighbors_preserves)
    show "Q s" by fact
  next
    fix iv l s'
    assume a: "Q s'" and b: "l \<in> set (getNeighbors env (location (allNodes_table s ! cur)))"
    from b have "stay_or_move env (location (allNodes_table s ! cur)) l"
      by (simp add: stay_or_move_def)
    with a show "Q (generateChildToFocal env iv cur l (my_heuristic env l) s')"
      by (rule step)
  qed
  from loc [OF 1] have mv: "stay_or_move env (location (allNodes_table s ! cur))
                          (location (allNodes_table ?s1 ! cur))"
    by (simp add: stay_or_move_def)
  have "Q (generateChildToFocal env iv' cur (location (allNodes_table ?s1 ! cur)) h ?s1)" for iv' h
    using 1 mv by (rule step)
  with 1 have "Q (snd (findPath_wait env cur iv ?s1))"
    unfolding findPath_wait_def Let_def by (simp split: prod.split)
  then show ?thesis
    by (simp add: findPath_expand_def)
qed

lemma findPath_expand_queue:
  assumes q: "queue_inv env s" and c: "cur < length (allNodes_table s)"
    "\<not> is_goal (allNodes_table s ! cur)"
  shows "queue_inv env (snd (findPath_expand env cur iv s)) \<and>
         (\<forall>g<length (allNodes_table s). is_goal (allNodes_table s ! g) \<longrightarrow>
            allNodes_table (snd (findPath_expand env cur iv s)) ! g = allNodes_table s ! g) \<and>
         set (focal_list s) \<subseteq> set (focal_list (snd (findPath_expand env cur iv s))) \<and>
         length (allNodes_table s) \<le> length (allNodes_table (snd (findPath_expand env cur iv s)))"
proof -
  define Q where "Q s' \<longleftrightarrow>
     queue_inv env s' \<and> allNodes_table s' ! cur = allNodes_table s ! cur \<and>
     length (allNodes_table s) \<le> length (allNodes_table s') \<and>
     (\<forall>g<length (allNodes_table s). is_goal (allNodes_table s ! g) \<longrightarrow>
        allNodes_table s' ! g = allNodes_table s ! g) \<and>
     set (focal_list s) \<subseteq> set (focal_list s')" for s'
  have "Q (snd (findPath_expand env cur iv s))"
  proof (rule findPath_expand_preserves [where Q = Q and s = s])
    show "Q s"
      using q by (simp add: Q_def)
  next
    fix s' assume "Q s'"
    then show "location (allNodes_table s' ! cur) = location (allNodes_table s ! cur)"
      by (simp add: Q_def)
  next
    fix iv' loc h s'
    assume s': "Q s'" and mv: "stay_or_move env (location (allNodes_table s ! cur)) loc"
    let ?s2 = "generateChildToFocal env iv' cur loc h s'"
    from s' have q': "queue_inv env s'" and n: "allNodes_table s' ! cur = allNodes_table s ! cur"
      and l: "length (allNodes_table s) \<le> length (allNodes_table s')"
      and g: "\<And>g. g < length (allNodes_table s) \<Longrightarrow> is_goal (allNodes_table s ! g) \<Longrightarrow>
                allNodes_table s' ! g = allNodes_table s ! g"
      and f: "set (focal_list s) \<subseteq> set (focal_list s')"
      by (simp_all add: Q_def)
    from c l n have c': "cur < length (allNodes_table s')" "\<not> is_goal (allNodes_table s' ! cur)"
      by simp_all
    from mv n have mv': "stay_or_move env (location (allNodes_table s' ! cur)) loc"
      by simp
    from q' have inv': "findPath_inv env s'"
      by (simp add: queue_inv_def)
    from generateChildToFocal_queue [OF q' c' mv'] have 1: "queue_inv env ?s2" .
    from generateChildToFocal_inv [OF inv' c' mv', of iv' h] n l
    have 2: "allNodes_table ?s2 ! cur = allNodes_table s ! cur"
      "length (allNodes_table s) \<le> length (allNodes_table ?s2)"
      by simp_all
    have 3: "allNodes_table ?s2 ! g = allNodes_table s ! g"
      if "g < length (allNodes_table s)" "is_goal (allNodes_table s ! g)" for g
    proof -
      from that l g [OF that] have "g < length (allNodes_table s')" "is_goal (allNodes_table s' ! g)"
        by simp_all
      from generateChildToFocal_goal_kept [OF this, of env iv' cur loc h] g [OF that]
      show ?thesis by simp
    qed
    have 4: "set (focal_list s) \<subseteq> set (focal_list ?s2)"
    proof (cases rule: generateChildToFocal_effect [of env iv' cur loc h s'])
      case same
      with f show ?thesis by simp
    next
      case new
      with f show ?thesis by auto
    next
      case (reopen e)
      with f show ?thesis by auto
    next
      case (update e)
      with f show ?thesis by auto
    qed
    from 1 2 3 4 show "Q ?s2"
      by (simp add: Q_def)
  qed
  then show ?thesis
    by (simp add: Q_def)
qed

lemma pop_focal_queue:
  assumes q: "queue_inv env s" and ne: "focal_list s \<noteq> []"
    and ng: "\<not> is_goal (allNodes_table s ! fst (pop_focal s))"
  shows "queue_inv env (snd (pop_focal s))"
    and "fst (pop_focal s) < length (allNodes_table (snd (pop_focal s)))"
    and "\<not> in_openlist (allNodes_table (snd (pop_focal s)) ! fst (pop_focal s))"
    and "\<forall>a<length (allNodes_table (snd (pop_focal s))).
           is_goal (allNodes_table (snd (pop_focal s)) ! a) \<longrightarrow>
           parent (allNodes_table (snd (pop_focal s)) ! a) = Some (fst (pop_focal s)) \<longrightarrow>
           goal_strictly_behind env (allNodes_table (snd (pop_focal s)) ! fst (pop_focal s))
             (allNodes_table (snd (pop_focal s)) ! a)"
proof -
  define cur where "cur = fst (pop_focal s)"
  define s1 where "s1 = snd (pop_focal s)"
  define ns where "ns = allNodes_table s"
  from q have inv: "findPath_inv env s" and f: "focal_inv s" and k: "keys_unique ns"
    and go: "goal_open ns" and gc: "goal_current env ns"
    by (simp_all add: queue_inv_def ns_def)
  from pop_focal_inv [OF inv ne]
  have m: "cur \<in> set (focal_list s)" and cl: "cur < length ns" and inv1: "findPath_inv env s1"
    and t1: "allNodes_table s1 = ns[cur := (ns ! cur)\<lparr>in_openlist := False\<rparr>]"
    by (simp_all add: cur_def s1_def ns_def)
  have f1: "focal_list s1 = remove1 cur (focal_list s)"
    by (simp add: s1_def cur_def pop_focal_def Let_def)
  from ng have ng': "\<not> is_goal (ns ! cur)"
    by (simp add: cur_def ns_def)
  from f m cl have op: "in_openlist (ns ! cur)"
    by (simp add: focal_inv_def ns_def)
  have "focal_inv s1"
    by (rule focal_inv_pop [OF f m f1 t1 [unfolded ns_def]])
  moreover have "keys_unique (allNodes_table s1)"
    unfolding t1 using k by (rule keys_unique_flag)
  moreover have "goal_open (allNodes_table s1)"
    unfolding t1 using go ng' by (rule goal_open_flag)
  moreover have "goal_current env (allNodes_table s1)"
    unfolding t1 using gc ng' cl by (rule goal_current_flag)
  ultimately show "queue_inv env (snd (pop_focal s))"
    using inv1 by (simp add: queue_inv_def s1_def)
  from cl show "fst (pop_focal s) < length (allNodes_table (snd (pop_focal s)))"
    by (simp add: t1 [unfolded s1_def] cur_def)
  from cl show "\<not> in_openlist (allNodes_table (snd (pop_focal s)) ! fst (pop_focal s))"
    by (simp add: t1 [unfolded s1_def] cur_def [symmetric])
  have "goal_strictly_behind env (allNodes_table s1 ! cur) (allNodes_table s1 ! a)"
    if a: "a < length (allNodes_table s1)" "is_goal (allNodes_table s1 ! a)"
      "parent (allNodes_table s1 ! a) = Some cur" for a
  proof -
    from a(1,2) ng' have "a \<noteq> cur"
      by (cases "a = cur") (simp_all add: t1)
    with a have a': "a < length ns" "is_goal (ns ! a)" "parent (ns ! a) = Some cur"
      "allNodes_table s1 ! a = ns ! a"
      by (simp_all add: t1)
    from goal_current_node(2) [OF gc a'(1,2,3) op] a'(4) cl show ?thesis
      by (simp add: t1)
  qed
  then show "\<forall>a<length (allNodes_table (snd (pop_focal s))).
           is_goal (allNodes_table (snd (pop_focal s)) ! a) \<longrightarrow>
           parent (allNodes_table (snd (pop_focal s)) ! a) = Some (fst (pop_focal s)) \<longrightarrow>
           goal_strictly_behind env (allNodes_table (snd (pop_focal s)) ! fst (pop_focal s))
             (allNodes_table (snd (pop_focal s)) ! a)"
    by (simp add: s1_def cur_def)
qed


lemma findPath_goal_node_queue:
  fixes env cur s fc
  defines "ns \<equiv> allNodes_table s"
  defines "goal \<equiv> (allNodes_table s ! cur)\<lparr>is_goal := True, parent := Some cur,
      num_of_conflicts := num_of_conflicts (allNodes_table s ! cur) + fc\<rparr>"
  assumes q: "queue_inv env s" and c: "cur < length ns" "\<not> is_goal (ns ! cur)"
    "location (ns ! cur) = goal_location env" "\<not> in_openlist (ns ! cur)"
    and strict: "\<forall>a<length ns. is_goal (ns ! a) \<longrightarrow> parent (ns ! a) = Some cur \<longrightarrow>
                   goal_strictly_behind env (ns ! cur) (ns ! a)"
    and fc: "fc = getFutureNumOfCollisions env (location (ns ! cur)) (timestep (ns ! cur))"
  shows "\<exists>s2 g. findPath_goal_node cur fc s = Inr s2 \<and> queue_inv env s2 \<and>
           g < length (allNodes_table s2) \<and> g \<in> set (focal_list s2) \<and>
           allNodes_table s2 ! g = goal\<lparr>in_openlist := True\<rparr> \<and>
           allNodes_table s2 ! cur = ns ! cur \<and> length ns \<le> length (allNodes_table s2)"
proof -
  from q have inv: "findPath_inv env s" and f: "focal_inv s" and k: "keys_unique ns"
    and go: "goal_open ns" and gc: "goal_current env ns"
    by (simp_all add: queue_inv_def ns_def)
  from inv have tree: "search_tree env ns" and foc: "\<forall>a\<in>set (focal_list s). a < length ns"
    by (simp_all add: findPath_inv_def ns_def)
  have gf: "is_goal goal" "parent goal = Some cur" "timestep goal = timestep (ns ! cur)"
    "num_of_conflicts goal = num_of_conflicts (ns ! cur) + fc" "location goal = location (ns ! cur)"
    "interval goal = interval (ns ! cur)"
    by (simp_all add: goal_def ns_def)
  have gb: "goal_behind env (ns ! cur) (goal\<lparr>in_openlist := True\<rparr>)"
    by (simp add: goal_behind_def gf fc)
  have c': "cur < length (allNodes_table s)" "\<not> is_goal (allNodes_table s ! cur)"
    "location (allNodes_table s ! cur) = goal_location env"
    using c by (simp_all add: ns_def)
  show ?thesis
  proof (cases "allNodes_find ns goal")
    case None
    define s2 where "s2 = s\<lparr>focal_list := focal_list s @ [length ns],
        num_generated := num_generated s + 1,
        allNodes_table := ns @ [goal\<lparr>in_openlist := True\<rparr>]\<rparr>"
    from None have r: "findPath_goal_node cur fc s = Inr s2"
      by (simp add: findPath_goal_node_def Let_def ns_def goal_def s2_def)
    have s2: "focal_list s2 = focal_list s @ [length (allNodes_table s)]"
      "allNodes_table s2 = allNodes_table s @ [goal\<lparr>in_openlist := True\<rparr>]"
      by (simp_all add: s2_def ns_def)
    from findPath_goal_node_inv [OF inv c' r] have inv2: "findPath_inv env s2"
      by simp
    from None have "\<forall>x\<in>set ns. \<not> eqnode x (goal\<lparr>in_openlist := True\<rparr>)"
      by (auto dest: allNodes_find_None)
    with k have "keys_unique (ns @ [goal\<lparr>in_openlist := True\<rparr>])"
      by (rule keys_unique_append)
    moreover have "focal_inv s2"
      by (rule focal_inv_new [OF f _ s2]) (use foc in \<open>simp_all add: ns_def\<close>)
    moreover have "goal_open (ns @ [goal\<lparr>in_openlist := True\<rparr>])"
      using go by (rule goal_open_append) simp
    moreover have "goal_current env (ns @ [goal\<lparr>in_openlist := True\<rparr>])"
      using gc tree
    proof (rule goal_current_append)
      from c gb gf(2)
      show "\<exists>p<length ns. parent (goal\<lparr>in_openlist := True\<rparr>) = Some p \<and>
              goal_behind env (ns ! p) (goal\<lparr>in_openlist := True\<rparr>) \<and> \<not> in_openlist (ns ! p)"
        by (intro exI [of _ cur]) simp
    qed
    ultimately have "queue_inv env s2"
      using inv2 by (simp add: queue_inv_def s2(2) ns_def)
    moreover from c(1) have "allNodes_table s2 ! length ns = goal\<lparr>in_openlist := True\<rparr>"
      "allNodes_table s2 ! cur = ns ! cur" "length ns \<in> set (focal_list s2)"
      "length ns < length (allNodes_table s2)" "length ns \<le> length (allNodes_table s2)"
      by (simp_all add: s2 ns_def nth_append)
    ultimately show ?thesis
      using r by blast
  next
    case (Some e)
    then have e: "e < length ns" "eqnode (ns ! e) goal"
      by (simp_all add: allNodes_find_Some)
    then have ge: "is_goal (ns ! e)" "location (ns ! e) = location (ns ! cur)"
      "get_0 (interval (ns ! e)) = get_0 (interval (ns ! cur))"
      by (simp_all add: eqnode_def gf)
    from ge(1) c(2) have ne: "cur \<noteq> e"
      by metis
    from tree have "\<not> is_goal (ns ! 0)"
      by (simp add: search_tree_def)
    with ge(1) have e0: "0 < e"
      by (cases "e = 0") simp_all
    with tree e(1) obtain p where p: "p < length ns" "parent (ns ! e) = Some p"
      "\<not> is_goal (ns ! p)" "link env (ns ! p) (ns ! e)"
      unfolding search_tree_def by blast
    from p(3,4) ge c(2) have "eqnode (ns ! p) (ns ! cur)"
      by (simp add: link_def eqnode_def)
    with k p(1) c(1) have pc: "p = cur"
      unfolding keys_unique_def by blast
    from strict e(1) ge(1) p(2) pc have "goal_strictly_behind env (ns ! cur) (ns ! e)"
      by simp
    then have better: "timestep goal < timestep (ns ! e) \<or>
        (timestep (ns ! e) = timestep goal \<and> num_of_conflicts goal < num_of_conflicts (ns ! e))"
      by (auto simp: goal_strictly_behind_def gf fc)
    from go e(1) ge(1) have op: "in_openlist (ns ! e)"
      by (simp add: goal_open_def)
    then have cp: "copy (ns ! e) goal = goal\<lparr>in_openlist := True\<rparr>"
      by (simp add: copy_flag)
    define s2 where "s2 = s\<lparr>allNodes_table := ns[e := copy (ns ! e) goal]\<rparr>"
    from Some better op have r: "findPath_goal_node cur fc s = Inr s2"
      by (auto simp: findPath_goal_node_def Let_def ns_def goal_def s2_def)
    have s2: "focal_list s2 = focal_list s"
      "allNodes_table s2 = (allNodes_table s)[e := goal\<lparr>in_openlist := True\<rparr>]"
      by (simp_all add: s2_def ns_def [symmetric] cp)
    from findPath_goal_node_inv [OF inv c' r] have inv2: "findPath_inv env s2"
      by simp
    have "keys_unique (ns[e := goal\<lparr>in_openlist := True\<rparr>])"
      using k e by (intro keys_unique_overwrite) simp_all
    moreover have "focal_inv s2"
      by (rule focal_inv_update [OF f e(1) [unfolded ns_def] s2]) (use op in \<open>simp add: ns_def\<close>)
    moreover have "goal_open (ns[e := goal\<lparr>in_openlist := True\<rparr>])"
      using go by (rule goal_open_overwrite) simp
    moreover have "goal_current env (ns[e := goal\<lparr>in_openlist := True\<rparr>])"
      using gc tree e(1)
    proof (rule goal_current_overwrite)
      show "is_goal (goal\<lparr>in_openlist := True\<rparr>) = is_goal (ns ! e)"
        using ge(1) gf(1) by simp
      show "\<exists>p. parent (goal\<lparr>in_openlist := True\<rparr>) = Some p \<and> p \<noteq> e \<and>
              goal_behind env (ns ! p) (goal\<lparr>in_openlist := True\<rparr>) \<and> \<not> in_openlist (ns ! p)"
        using c(4) gb gf(2) ne by (intro exI [of _ cur]) simp
      show "location (goal\<lparr>in_openlist := True\<rparr>) = location (ns ! e) \<and>
         (timestep (goal\<lparr>in_openlist := True\<rparr>) < timestep (ns ! e) \<or>
          timestep (ns ! e) = timestep (goal\<lparr>in_openlist := True\<rparr>) \<and>
          num_of_conflicts (goal\<lparr>in_openlist := True\<rparr>) < num_of_conflicts (ns ! e))"
        if "\<not> is_goal (goal\<lparr>in_openlist := True\<rparr>)"
        using that gf(1) by simp
    qed
    ultimately have "queue_inv env s2"
      using inv2 by (simp add: queue_inv_def s2(2) ns_def)
    moreover from f e(1) op have "e \<in> set (focal_list s2)"
      by (simp add: focal_inv_def s2 ns_def)
    moreover from e(1) ne have "allNodes_table s2 ! e = goal\<lparr>in_openlist := True\<rparr>"
      "allNodes_table s2 ! cur = ns ! cur" "e < length (allNodes_table s2)"
      "length ns \<le> length (allNodes_table s2)"
      by (simp_all add: s2 ns_def)
    ultimately show ?thesis
      using r by blast
  qed
qed


lemma pop_focal_fields:
  assumes "findPath_inv env s" "focal_list s \<noteq> []"
  shows "allNodes_table (snd (pop_focal s)) ! fst (pop_focal s) =
           (allNodes_table s ! fst (pop_focal s))\<lparr>in_openlist := False\<rparr>"
  using pop_focal_inv [OF assms] by simp

lemma findPath_iteration_queue:
  assumes q: "queue_inv env s" and ne: "focal_list s \<noteq> []"
    and r: "findPath_iteration env ht iv s = Some (Inr (Continue iv' s'))"
  shows "queue_inv env s'"
proof -
  define cur where "cur = fst (pop_focal s)"
  define s1 where "s1 = snd (pop_focal s)"
  define c where "c = allNodes_table s1 ! cur"
  from q have inv: "findPath_inv env s"
    by (simp add: queue_inv_def)
  have cf: "c = (allNodes_table s ! cur)\<lparr>in_openlist := False\<rparr>"
    unfolding c_def s1_def cur_def by (rule pop_focal_fields [OF inv ne])
  have popped: "queue_inv env s1" "cur < length (allNodes_table s1)"
    "\<not> in_openlist (allNodes_table s1 ! cur)"
    "\<forall>a<length (allNodes_table s1). is_goal (allNodes_table s1 ! a) \<longrightarrow>
       parent (allNodes_table s1 ! a) = Some cur \<longrightarrow>
       goal_strictly_behind env (allNodes_table s1 ! cur) (allNodes_table s1 ! a)"
    if "\<not> is_goal c"
  proof -
    from that cf have "\<not> is_goal (allNodes_table s ! fst (pop_focal s))"
      by (simp add: cur_def)
    from pop_focal_queue [OF q ne this]
    show "queue_inv env s1" "cur < length (allNodes_table s1)"
      "\<not> in_openlist (allNodes_table s1 ! cur)"
      "\<forall>a<length (allNodes_table s1). is_goal (allNodes_table s1 ! a) \<longrightarrow>
         parent (allNodes_table s1 ! a) = Some cur \<longrightarrow>
         goal_strictly_behind env (allNodes_table s1 ! cur) (allNodes_table s1 ! a)"
      by (simp_all add: s1_def cur_def)
  qed
  from r show ?thesis
  proof (cases rule: findPath_iteration_cases)
    case (goal_popped p path)
    then show ?thesis by simp
  next
    case (direct path)
    then show ?thesis by simp
  next
    case (virtual s2)
    from virtual(1) have ng: "\<not> is_goal c"
      by (simp add: c_def s1_def cur_def)
    note pp = popped [OF ng]
    from virtual(2) have lg: "location (allNodes_table s1 ! cur) = goal_location env"
      by (simp add: s1_def cur_def)
    from findPath_goal_node_queue [OF pp(1,2) ng [unfolded c_def] lg pp(3,4) refl]
    obtain s2' where "findPath_goal_node cur
        (getFutureNumOfCollisions env (location (allNodes_table s1 ! cur))
           (timestep (allNodes_table s1 ! cur))) s1 = Inr s2'"
      "queue_inv env s2'" "allNodes_table s2' ! cur = allNodes_table s1 ! cur"
      "length (allNodes_table s1) \<le> length (allNodes_table s2')"
      by blast
    with virtual(6) have s2: "queue_inv env s2" "allNodes_table s2 ! cur = allNodes_table s1 ! cur"
      "length (allNodes_table s1) \<le> length (allNodes_table s2)"
      by (simp_all add: s1_def cur_def)
    with pp(2) ng have "cur < length (allNodes_table s2)" "\<not> is_goal (allNodes_table s2 ! cur)"
      by (simp_all add: c_def)
    from findPath_expand_queue [OF s2(1) this, of iv] virtual(7) show ?thesis
      by (simp add: cur_def)
  next
    case plain
    from plain(1) have ng: "\<not> is_goal c"
      by (simp add: c_def s1_def cur_def)
    note pp = popped [OF ng]
    from findPath_expand_queue [OF pp(1,2) ng [unfolded c_def], of iv] plain(3) show ?thesis
      by (simp add: cur_def s1_def)
  qed
qed

lemma findPath_rounds_queue:
  "queue_inv env s \<Longrightarrow> queue_inv env (snd (findPath_rounds k env ht iv s))"
proof (induction k arbitrary: iv s)
  case 0
  then show ?case by simp
next
  case (Suc k)
  show ?case
  proof (cases "focal_list s = []")
    case True
    with Suc.prems show ?thesis by simp
  next
    case ne: False
    show ?thesis
    proof (cases "\<exists>iv' s'. findPath_iteration env ht iv s = Some (Inr (Continue iv' s'))")
      case True
      then obtain iv' s' where r: "findPath_iteration env ht iv s = Some (Inr (Continue iv' s'))"
        by blast
      from findPath_iteration_queue [OF Suc.prems ne r] have "queue_inv env s'" .
      then have "queue_inv env (snd (findPath_rounds k env ht iv' s'))"
        by (rule Suc.IH)
      with ne r show ?thesis by simp
    next
      case False
      with ne have "findPath_rounds (Suc k) env ht iv s = (iv, s)"
        by (auto split: option.splits sum.splits control.splits)
      with Suc.prems show ?thesis by simp
    qed
  qed
qed

lemma findPath_start_queue:
  assumes "allNodes_table s0 = []" "focal_list s0 = []"
  shows "queue_inv env (findPath_start env s0)"
proof -
  let ?s = "findPath_start env s0"
  have t: "allNodes_table ?s = [(new_SIPPNode (start_location env) 0
      (max (my_heuristic env (start_location env))
         (getHoldingTime env (goal_location env) (length_min env))) None 0
      (get_first_safe_interval env (start_location env)) 0)\<lparr>in_openlist := True\<rparr>]"
    "focal_list ?s = [0]"
    using assms by (simp_all add: findPath_start_def Let_def)
  have "focal_inv ?s" "keys_unique (allNodes_table ?s)" "goal_open (allNodes_table ?s)"
    "goal_current env (allNodes_table ?s)"
    unfolding t focal_inv_def keys_unique_def goal_open_def goal_current_def
    by (simp_all add: new_SIPPNode_def)
  with findPath_start_inv [OF assms] show ?thesis
    by (simp add: queue_inv_def)
qed

subsection \<open>Duplicates in mode A\<close>

lemma generateChildToFocal_duplicate:
  assumes "allNodes_find (allNodes_table t) (generateChildToFocal_next env iv c loc h t) = Some d"
  shows "generateChildToFocal env iv c loc h t =
           spec_duplicate_handling d (generateChildToFocal_next env iv c loc h t) t"
proof -
  define nxt where "nxt = generateChildToFocal_next env iv c loc h t"
  define ex where "ex = allNodes_table t ! d"
  have g: "generateChildToFocal env iv c loc h t =
     (if timestep nxt < timestep ex \<or>
         (timestep ex = timestep nxt \<and> num_of_conflicts nxt < num_of_conflicts ex)
      then (if \<not> in_openlist ex
            then t\<lparr>allNodes_table := (allNodes_table t)[d := (copy ex nxt)\<lparr>in_openlist := True\<rparr>],
                   focal_list := focal_list t @ [d]\<rparr>
            else t\<lparr>allNodes_table := (allNodes_table t)[d := copy ex nxt]\<rparr>)
      else t)"
    using assms by (simp add: generateChildToFocal_def Let_def nxt_def ex_def)
  have c1: "(copy ex nxt)\<lparr>in_openlist := True\<rparr> = nxt\<lparr>in_openlist := True\<rparr>"
    by (simp add: copy_flag)
  have c2: "copy ex nxt = nxt\<lparr>in_openlist := True\<rparr>" if "in_openlist ex"
    using that by (simp add: copy_flag)
  show ?thesis
    unfolding g spec_duplicate_handling_def Let_def nxt_def [symmetric] ex_def [symmetric]
    by (auto simp: c1 c2)
qed


lemma findPath_goal_node_duplicate:
  fixes cur fc s
  defines "goal \<equiv> (allNodes_table s ! cur)\<lparr>is_goal := True, parent := Some cur,
      num_of_conflicts := num_of_conflicts (allNodes_table s ! cur) + fc\<rparr>"
  assumes q: "queue_inv env s" and found: "allNodes_find (allNodes_table s) goal = Some e"
  shows "findPath_goal_node cur fc s = Inr (spec_duplicate_handling e goal s) \<and>
         in_openlist (allNodes_table s ! e) \<and> e \<in> set (focal_list s)"
proof -
  define ex where "ex = allNodes_table s ! e"
  from q have f: "focal_inv s" and go: "goal_open (allNodes_table s)"
    by (simp_all add: queue_inv_def)
  from allNodes_find_Some [OF found] have e: "e < length (allNodes_table s)" "eqnode ex goal"
    by (simp_all add: ex_def)
  from e(2) have "is_goal ex"
    by (simp add: eqnode_def goal_def)
  with go e(1) have op: "in_openlist ex"
    by (simp add: goal_open_def ex_def)
  with f e(1) have m: "e \<in> set (focal_list s)"
    by (simp add: focal_inv_def ex_def)
  have g: "findPath_goal_node cur fc s =
     (if timestep goal < timestep ex \<or>
         (timestep ex = timestep goal \<and> num_of_conflicts goal < num_of_conflicts ex)
      then Inr (s\<lparr>allNodes_table := (allNodes_table s)[e := copy ex goal]\<rparr>)
      else Inr s)"
    using found op by (simp add: findPath_goal_node_def Let_def goal_def ex_def)
  from op have c: "copy ex goal = goal\<lparr>in_openlist := True\<rparr>"
    by (simp add: copy_flag)
  have "findPath_goal_node cur fc s = Inr (spec_duplicate_handling e goal s)"
    unfolding g spec_duplicate_handling_def Let_def ex_def [symmetric]
    using op by (auto simp: c)
  with op m show ?thesis
    by (simp add: ex_def)
qed

text \<open>
  Claim C7. Both places of mode A that find a node with the key of a new node in the table
  follow the spec's rule \<open>spec_duplicate_handling\<close>. (1) In \<open>generateChildToFocal\<close>, in any
  state \<open>t\<close>: when the table holds a node with the key of the new child at address \<open>d\<close>, the
  call does what the rule says for \<open>d\<close> and the child. (2) For the virtual goal node, in a
  round of a search started on an idle planner, \<open>cur\<close> being the node popped and \<open>s1\<close> the state
  after the pop: when the table holds a node with the key of the new goal node at address
  \<open>e\<close>, the code does what the rule says for \<open>e\<close> and the goal node, without failing; the
  existing node is then open and in FOCAL, so that the rule never has to reopen it.
\<close>

theorem mode_A_duplicate_handling:
  fixes env :: Env and s0 t :: SIPP and k :: nat and ht fc :: int and iv0 iv :: Interval
    and c :: nat and loc h :: int
  defines "s \<equiv> snd (findPath_rounds k env ht iv0 (findPath_start env s0))"
  defines "cur \<equiv> fst (pop_focal s)"
  defines "s1 \<equiv> snd (pop_focal s)"
  defines "goal \<equiv> (allNodes_table s1 ! cur)\<lparr>is_goal := True, parent := Some cur,
      num_of_conflicts := num_of_conflicts (allNodes_table s1 ! cur) + fc\<rparr>"
  defines "nxt \<equiv> generateChildToFocal_next env iv c loc h t"
  shows "(allNodes_find (allNodes_table t) nxt = Some d \<longrightarrow>
            generateChildToFocal env iv c loc h t = spec_duplicate_handling d nxt t) \<and>
         (allNodes_table s0 = [] \<and> focal_list s0 = [] \<and> focal_list s \<noteq> [] \<and>
          \<not> is_goal (allNodes_table s1 ! cur) \<and> allNodes_find (allNodes_table s1) goal = Some e \<longrightarrow>
            findPath_goal_node cur fc s1 = Inr (spec_duplicate_handling e goal s1) \<and>
            in_openlist (allNodes_table s1 ! e) \<and> e \<in> set (focal_list s1))"
proof (rule conjI; rule impI)
  assume "allNodes_find (allNodes_table t) nxt = Some d"
  then show "generateChildToFocal env iv c loc h t = spec_duplicate_handling d nxt t"
    unfolding nxt_def by (rule generateChildToFocal_duplicate)
next
  assume a: "allNodes_table s0 = [] \<and> focal_list s0 = [] \<and> focal_list s \<noteq> [] \<and>
    \<not> is_goal (allNodes_table s1 ! cur) \<and> allNodes_find (allNodes_table s1) goal = Some e"
  then have idle: "allNodes_table s0 = []" "focal_list s0 = []"
    and ne: "focal_list s \<noteq> []" and ng: "\<not> is_goal (allNodes_table s1 ! cur)"
    and found: "allNodes_find (allNodes_table s1) goal = Some e"
    by simp_all
  from findPath_start_queue [OF idle] have "queue_inv env (findPath_start env s0)" .
  then have q: "queue_inv env s"
    unfolding s_def by (rule findPath_rounds_queue)
  then have inv: "findPath_inv env s"
    by (simp add: queue_inv_def)
  from ng have "\<not> is_goal (allNodes_table s ! fst (pop_focal s))"
    unfolding s1_def cur_def by (simp add: pop_focal_fields [OF inv ne])
  from pop_focal_queue(1) [OF q ne this] have q1: "queue_inv env s1"
    by (simp add: s1_def)
  from findPath_goal_node_duplicate [OF q1 found [unfolded goal_def]]
  show "findPath_goal_node cur fc s1 = Inr (spec_duplicate_handling e goal s1) \<and>
        in_openlist (allNodes_table s1 ! e) \<and> e \<in> set (focal_list s1)"
    by (simp add: goal_def)
qed

theorem mode_A_duplicate_handling_witness:
  "allNodes_table idle_SIPP = [] \<and> focal_list idle_SIPP = [] \<and>
   (let s = snd (findPath_rounds 6 grid_env 3 (0, 1000, 0) (findPath_start grid_env idle_SIPP));
        s1 = snd (pop_focal s);
        goal = (allNodes_table s1 ! 5)\<lparr>is_goal := True, parent := Some 5,
                 num_of_conflicts := num_of_conflicts (allNodes_table s1 ! 5) + 1\<rparr>;
        t = snd (pop_focal (snd (findPath_rounds 5 grid_env 3 (0, 1000, 0)
                                   (findPath_start grid_env idle_SIPP))));
        nxt = generateChildToFocal_next grid_env (3, 6, 0) 1 2 0 t
    in focal_list s \<noteq> [] \<and> fst (pop_focal s) = 5 \<and> \<not> is_goal (allNodes_table s1 ! 5) \<and>
       allNodes_find (allNodes_table s1) goal = Some 7 \<and>
       allNodes_find (allNodes_table t) nxt = Some 5 \<and>
       generateChildToFocal grid_env (3, 6, 0) 1 2 0 t = spec_duplicate_handling 5 nxt t \<and>
       findPath_goal_node 5 1 s1 = Inr (spec_duplicate_handling 7 goal s1) \<and>
       in_openlist (allNodes_table s1 ! 7) \<and> 7 \<in> set (focal_list s1))"
proof -
  define s where "s = snd (findPath_rounds 6 grid_env 3 (0, 1000, 0) (findPath_start grid_env idle_SIPP))"
  define t where "t = snd (pop_focal (snd (findPath_rounds 5 grid_env 3 (0, 1000, 0)
                                   (findPath_start grid_env idle_SIPP))))"
  have a: "allNodes_table idle_SIPP = []" "focal_list idle_SIPP = []"
    by (simp_all add: idle_SIPP_def)
  have ne: "focal_list s \<noteq> []"
    unfolding s_def by code_simp
  have cur: "fst (pop_focal s) = 5"
    unfolding s_def by code_simp
  have ng: "\<not> is_goal (allNodes_table (snd (pop_focal s)) ! 5)"
    unfolding s_def by code_simp
  have found: "allNodes_find (allNodes_table (snd (pop_focal s)))
      ((allNodes_table (snd (pop_focal s)) ! 5)
         \<lparr>is_goal := True, parent := Some 5,
          num_of_conflicts := num_of_conflicts (allNodes_table (snd (pop_focal s)) ! 5) + 1\<rparr>) = Some 7"
    unfolding s_def by code_simp
  have child: "allNodes_find (allNodes_table t) (generateChildToFocal_next grid_env (3, 6, 0) 1 2 0 t) =
      Some 5"
    unfolding t_def by code_simp
  from mode_A_duplicate_handling [where env = grid_env and ?s0.0 = idle_SIPP and k = 6 and ht = 3
      and ?iv0.0 = "(0, 1000, 0)" and fc = 1 and e = 7 and t = t and iv = "(3, 6, 0)" and c = 1
      and loc = 2 and h = 0 and d = 5, folded s_def]
    a ne cur ng found child
  show ?thesis
    unfolding Let_def s_def [symmetric] t_def [symmetric] by (simp add: cur)
qed

subsection \<open>Goal detection in mode A\<close>

lemma findPath_iteration_unfold:
  fixes env ht iv s
  defines "cur \<equiv> fst (pop_focal s)"
  defines "s1 \<equiv> snd (pop_focal s)"
  defines "c \<equiv> allNodes_table (snd (pop_focal s)) ! fst (pop_focal s)"
  defines "fc \<equiv> getFutureNumOfCollisions env
                   (location (allNodes_table (snd (pop_focal s)) ! fst (pop_focal s)))
                   (timestep (allNodes_table (snd (pop_focal s)) ! fst (pop_focal s)))"
  assumes "0 \<le> location c"
  shows "findPath_iteration env ht iv s =
     (if is_goal c
      then (case parent c of
              None \<Rightarrow> Some (Inl UndefinedBehaviour)
            | Some p \<Rightarrow> break_with (allNodes_table s1) p s1)
      else if location c = goal_location env \<and> \<not> wait_at_goal c \<and> timestep c \<ge> ht
      then (if fc = 0 then break_with (allNodes_table s1) cur s1
            else (case findPath_goal_node cur fc s1 of
                    Inl e \<Rightarrow> Some (Inl e)
                  | Inr s' \<Rightarrow>
                      Some (Inr (Continue (fst (findPath_expand env cur iv s'))
                                          (snd (findPath_expand env cur iv s'))))))
      else Some (Inr (Continue (fst (findPath_expand env cur iv s1))
                               (snd (findPath_expand env cur iv s1)))))"
  using assms(5) unfolding findPath_iteration_def cur_def s1_def c_def fc_def
  by (simp add: case_prod_beta Let_def cong: sum.case_cong)

lemma findPath_loop_break:
  assumes "focal_list s \<noteq> []" "findPath_iteration env ht iv s = break_with ns g s1"
    "updatePath ns g = Some (Inr path)"
  shows "findPath_loop env ht iv s = Some (Inr (path, s1))"
  using assms by (subst findPath_loop.simps) (simp add: break_with_def)

text \<open>
  Claim C4. Take a round of the loop of \<open>findPath\<close>, in a search started on an idle planner:
  \<open>s\<close> is the state at the head of the loop after \<open>k\<close> rounds, FOCAL is not empty, \<open>cur\<close> is
  the node popped, \<open>s1\<close> the state after the pop and \<open>c\<close> the contents of \<open>cur\<close>; the cell of
  \<open>c\<close> is a valid one (not negative, which the code asserts). Let \<open>fc\<close> be the future
  collisions at the cell and time step of \<open>c\<close>.
  (1) If \<open>c\<close> is tagged \<open>is_goal\<close>, it has a parent, \<open>updatePath\<close> returns a path for the
  parent and the loop ends with that path.
  (2) If \<open>c\<close> is not tagged, is at the goal location, is not a wait-at-goal node and its time
  step is at least the holding time, then: if \<open>fc = 0\<close>, \<open>updatePath\<close> returns a path for
  \<open>cur\<close> and the loop ends with it; otherwise the goal-node step does not fail, and after it, as well
  as after the expansion of \<open>cur\<close> that ends the round, the table holds at some address \<open>g\<close>
  of FOCAL the node \<open>goal\<close>: the copy of \<open>c\<close> with \<open>is_goal\<close> set, \<open>cur\<close> as parent, \<open>fc\<close> added
  to the conflicts, and open; the loop goes on.
  (3) In every other case the node is not a goal: it is expanded and the loop goes on.
\<close>

theorem findPath_goal_detection:
  fixes env :: Env and s0 :: SIPP and k :: nat and ht :: int and iv0 iv :: Interval
  defines "s \<equiv> snd (findPath_rounds k env ht iv0 (findPath_start env s0))"
  defines "cur \<equiv> fst (pop_focal s)"
  defines "s1 \<equiv> snd (pop_focal s)"
  defines "c \<equiv> allNodes_table s1 ! cur"
  defines "fc \<equiv> getFutureNumOfCollisions env (location c) (timestep c)"
  defines "goal \<equiv> c\<lparr>is_goal := True, parent := Some cur,
                     num_of_conflicts := num_of_conflicts c + fc, in_openlist := True\<rparr>"
  assumes idle: "allNodes_table s0 = []" "focal_list s0 = []"
    and ne: "focal_list s \<noteq> []" and loc: "0 \<le> location c"
  shows "(is_goal c \<longrightarrow>
           (\<exists>p path. parent c = Some p \<and> updatePath (allNodes_table s1) p = Some (Inr path) \<and>
                     findPath_loop env ht iv s = Some (Inr (path, s1)))) \<and>
         (\<not> is_goal c \<and> location c = goal_location env \<and> \<not> wait_at_goal c \<and> ht \<le> timestep c \<longrightarrow>
           (fc = 0 \<longrightarrow>
              (\<exists>path. updatePath (allNodes_table s1) cur = Some (Inr path) \<and>
                      findPath_loop env ht iv s = Some (Inr (path, s1)))) \<and>
           (fc \<noteq> 0 \<longrightarrow>
              (\<exists>s2 g. findPath_goal_node cur fc s1 = Inr s2 \<and>
                      g \<in> set (focal_list s2) \<and> g < length (allNodes_table s2) \<and>
                      allNodes_table s2 ! g = goal \<and>
                      findPath_iteration env ht iv s =
                        Some (Inr (Continue (fst (findPath_expand env cur iv s2))
                                            (snd (findPath_expand env cur iv s2)))) \<and>
                      g \<in> set (focal_list (snd (findPath_expand env cur iv s2))) \<and>
                      allNodes_table (snd (findPath_expand env cur iv s2)) ! g = goal))) \<and>
         (\<not> is_goal c \<and>
          \<not> (location c = goal_location env \<and> \<not> wait_at_goal c \<and> ht \<le> timestep c) \<longrightarrow>
            findPath_iteration env ht iv s =
              Some (Inr (Continue (fst (findPath_expand env cur iv s1))
                                  (snd (findPath_expand env cur iv s1)))))"
proof -
  from findPath_start_queue [OF idle] have "queue_inv env (findPath_start env s0)" .
  then have q: "queue_inv env s"
    unfolding s_def by (rule findPath_rounds_queue)
  then have inv: "findPath_inv env s"
    by (simp add: queue_inv_def)
  from pop_focal_inv [OF inv ne]
  have cl1: "cur < length (allNodes_table s1)" and inv1: "findPath_inv env s1"
    by (simp_all add: cur_def s1_def)
  from inv1 have tree1: "search_tree env (allNodes_table s1)"
    by (simp add: findPath_inv_def)
  have cf: "c = (allNodes_table s ! cur)\<lparr>in_openlist := False\<rparr>"
    unfolding c_def s1_def cur_def by (rule pop_focal_fields [OF inv ne])
  from loc have loc': "0 \<le> location (allNodes_table (snd (pop_focal s)) ! fst (pop_focal s))"
    by (simp add: c_def s1_def cur_def)
  note it = findPath_iteration_unfold [OF loc', of env ht iv, folded s1_def cur_def,
      folded c_def, folded fc_def]
  have 1: "\<exists>p path. parent c = Some p \<and> updatePath (allNodes_table s1) p = Some (Inr path) \<and>
             findPath_loop env ht iv s = Some (Inr (path, s1))" if g: "is_goal c"
  proof -
    from tree1 have "\<not> is_goal (allNodes_table s1 ! 0)"
      by (simp add: search_tree_def)
    with g have "0 < cur"
      by (cases "cur = 0") (simp_all add: c_def)
    with tree1 cl1 obtain p where p: "p < length (allNodes_table s1)" "parent c = Some p"
      "\<not> is_goal (allNodes_table s1 ! p)"
      unfolding search_tree_def c_def by blast
    from updatePath_total [OF tree1 p(1,3)]
    obtain path where path: "updatePath (allNodes_table s1) p = Some (Inr path)"
      by blast
    from it g p(2) have "findPath_iteration env ht iv s = break_with (allNodes_table s1) p s1"
      by simp
    from findPath_loop_break [OF ne this path] p(2) path show ?thesis
      by blast
  qed
  have 2: "\<exists>path. updatePath (allNodes_table s1) cur = Some (Inr path) \<and>
             findPath_loop env ht iv s = Some (Inr (path, s1))"
    if g: "\<not> is_goal c" "location c = goal_location env \<and> \<not> wait_at_goal c \<and> ht \<le> timestep c"
      "fc = 0"
  proof -
    from updatePath_total [OF tree1 cl1] g(1)
    obtain path where path: "updatePath (allNodes_table s1) cur = Some (Inr path)"
      unfolding c_def by blast
    from it g have "findPath_iteration env ht iv s = break_with (allNodes_table s1) cur s1"
      by simp
    from findPath_loop_break [OF ne this path] path show ?thesis
      by blast
  qed
  have 3: "\<exists>s2 g. findPath_goal_node cur fc s1 = Inr s2 \<and>
             g \<in> set (focal_list s2) \<and> g < length (allNodes_table s2) \<and>
             allNodes_table s2 ! g = goal \<and>
             findPath_iteration env ht iv s =
               Some (Inr (Continue (fst (findPath_expand env cur iv s2))
                                   (snd (findPath_expand env cur iv s2)))) \<and>
             g \<in> set (focal_list (snd (findPath_expand env cur iv s2))) \<and>
             allNodes_table (snd (findPath_expand env cur iv s2)) ! g = goal"
    if g: "\<not> is_goal c" "location c = goal_location env \<and> \<not> wait_at_goal c \<and> ht \<le> timestep c"
      "fc \<noteq> 0"
  proof -
    from g(1) cf have "\<not> is_goal (allNodes_table s ! fst (pop_focal s))"
      by (simp add: cur_def)
    note pp = pop_focal_queue [OF q ne this, folded s1_def cur_def]
    from g(2) have lg: "location (allNodes_table s1 ! cur) = goal_location env"
      by (simp add: c_def)
    have fce: "fc = getFutureNumOfCollisions env (location (allNodes_table s1 ! cur))
                      (timestep (allNodes_table s1 ! cur))"
      by (simp add: fc_def c_def)
    from findPath_goal_node_queue [OF pp(1,2) g(1) [unfolded c_def] lg pp(3,4) fce]
    obtain s2 a where s2: "findPath_goal_node cur fc s1 = Inr s2" "queue_inv env s2"
      "a < length (allNodes_table s2)" "a \<in> set (focal_list s2)"
      "allNodes_table s2 ! a = goal" "allNodes_table s2 ! cur = c"
      unfolding goal_def c_def by auto
    from s2(6) g(1) cl1 pp(2) have c2: "\<not> is_goal (allNodes_table s2 ! cur)"
      by simp
    have l2: "cur < length (allNodes_table s2)"
      using findPath_goal_node_inv [OF inv1 cl1 g(1) [unfolded c_def] lg s2(1)] cl1 by simp
    from s2(5) have ga: "is_goal (allNodes_table s2 ! a)"
      by (simp add: goal_def)
    from findPath_expand_queue [OF s2(2) l2 c2, of iv] s2(3,4,5) ga
    have "a \<in> set (focal_list (snd (findPath_expand env cur iv s2)))"
      "allNodes_table (snd (findPath_expand env cur iv s2)) ! a = goal"
      by auto
    moreover from it g s2(1)
    have "findPath_iteration env ht iv s =
            Some (Inr (Continue (fst (findPath_expand env cur iv s2))
                                (snd (findPath_expand env cur iv s2))))"
      by simp
    ultimately show ?thesis
      using s2(1,3,4,5) by blast
  qed
  have 4: "findPath_iteration env ht iv s =
             Some (Inr (Continue (fst (findPath_expand env cur iv s1))
                                 (snd (findPath_expand env cur iv s1))))"
    if "\<not> is_goal c" "\<not> (location c = goal_location env \<and> \<not> wait_at_goal c \<and> ht \<le> timestep c)"
    using it that by simp
  from 1 2 3 4 show ?thesis
    by blast
qed


theorem findPath_goal_detection_witness:
  "allNodes_table idle_SIPP = [] \<and> focal_list idle_SIPP = [] \<and>
   (let s = snd (findPath_rounds 4 grid_env 3 (0, 1000, 0) (findPath_start grid_env idle_SIPP));
        s1 = snd (pop_focal s); c = allNodes_table s1 ! 5
    in focal_list s \<noteq> [] \<and> fst (pop_focal s) = 5 \<and> location c = goal_location grid_env \<and>
       \<not> is_goal c \<and> \<not> wait_at_goal c \<and> timestep c = 4 \<and>
       getFutureNumOfCollisions grid_env (location c) (timestep c) = 1 \<and>
       (\<exists>s2 g. findPath_goal_node 5 1 s1 = Inr s2 \<and> g \<in> set (focal_list s2) \<and>
          allNodes_table s2 ! g =
            c\<lparr>is_goal := True, parent := Some 5, num_of_conflicts := num_of_conflicts c + 1,
              in_openlist := True\<rparr>)) \<and>
   (let s = snd (findPath_rounds 8 grid_env 3 (0, 1000, 0) (findPath_start grid_env idle_SIPP));
        s1 = snd (pop_focal s); c = allNodes_table s1 ! 6
    in focal_list s \<noteq> [] \<and> fst (pop_focal s) = 6 \<and> location c = goal_location grid_env \<and>
       \<not> is_goal c \<and> \<not> wait_at_goal c \<and> timestep c = 6 \<and>
       getFutureNumOfCollisions grid_env (location c) (timestep c) = 0 \<and>
       (\<exists>path. updatePath (allNodes_table s1) 6 = Some (Inr path) \<and>
          findPath_loop grid_env 3 (0, 1000, 0) s = Some (Inr (path, s1)))) \<and>
   (let s = snd (findPath_rounds 7 unclipped_env 3 (0, 1000, 0)
                   (findPath_start unclipped_env idle_SIPP));
        s1 = snd (pop_focal s); c = allNodes_table s1 ! 7
    in focal_list s \<noteq> [] \<and> fst (pop_focal s) = 7 \<and> is_goal c \<and>
       (\<exists>p path. parent c = Some p \<and> updatePath (allNodes_table s1) p = Some (Inr path) \<and>
          findPath_loop unclipped_env 3 (0, 1000, 0) s = Some (Inr (path, s1))))"
proof -
  define sa where
    "sa = snd (findPath_rounds 4 grid_env 3 (0, 1000, 0) (findPath_start grid_env idle_SIPP))"
  define sb where
    "sb = snd (findPath_rounds 8 grid_env 3 (0, 1000, 0) (findPath_start grid_env idle_SIPP))"
  define sc where
    "sc = snd (findPath_rounds 7 unclipped_env 3 (0, 1000, 0)
                 (findPath_start unclipped_env idle_SIPP))"
  have i: "allNodes_table idle_SIPP = []" "focal_list idle_SIPP = []"
    by (simp_all add: idle_SIPP_def)
  have a: "focal_list sa \<noteq> []" "fst (pop_focal sa) = 5"
    "0 \<le> location (allNodes_table (snd (pop_focal sa)) ! fst (pop_focal sa))"
    "location (allNodes_table (snd (pop_focal sa)) ! 5) = goal_location grid_env"
    "\<not> is_goal (allNodes_table (snd (pop_focal sa)) ! 5)"
    "\<not> wait_at_goal (allNodes_table (snd (pop_focal sa)) ! 5)"
    "timestep (allNodes_table (snd (pop_focal sa)) ! 5) = 4"
    "getFutureNumOfCollisions grid_env (location (allNodes_table (snd (pop_focal sa)) ! 5))
       (timestep (allNodes_table (snd (pop_focal sa)) ! 5)) = 1"
    unfolding sa_def by code_simp+
  have b: "focal_list sb \<noteq> []" "fst (pop_focal sb) = 6"
    "0 \<le> location (allNodes_table (snd (pop_focal sb)) ! fst (pop_focal sb))"
    "location (allNodes_table (snd (pop_focal sb)) ! 6) = goal_location grid_env"
    "\<not> is_goal (allNodes_table (snd (pop_focal sb)) ! 6)"
    "\<not> wait_at_goal (allNodes_table (snd (pop_focal sb)) ! 6)"
    "timestep (allNodes_table (snd (pop_focal sb)) ! 6) = 6"
    "getFutureNumOfCollisions grid_env (location (allNodes_table (snd (pop_focal sb)) ! 6))
       (timestep (allNodes_table (snd (pop_focal sb)) ! 6)) = 0"
    unfolding sb_def by code_simp+
  have c: "focal_list sc \<noteq> []" "fst (pop_focal sc) = 7"
    "0 \<le> location (allNodes_table (snd (pop_focal sc)) ! fst (pop_focal sc))"
    "is_goal (allNodes_table (snd (pop_focal sc)) ! 7)"
    unfolding sc_def by code_simp+
  from findPath_goal_detection [OF i a(1) [unfolded sa_def] a(3) [unfolded sa_def],
      of "(0, 1000, 0)", folded sa_def] a(2,4-8)
  have 1: "\<exists>s2 g. findPath_goal_node 5 1 (snd (pop_focal sa)) = Inr s2 \<and> g \<in> set (focal_list s2) \<and>
          allNodes_table s2 ! g =
            (allNodes_table (snd (pop_focal sa)) ! 5)
              \<lparr>is_goal := True, parent := Some 5,
               num_of_conflicts := num_of_conflicts (allNodes_table (snd (pop_focal sa)) ! 5) + 1,
               in_openlist := True\<rparr>"
    by auto
  from findPath_goal_detection [OF i b(1) [unfolded sb_def] b(3) [unfolded sb_def],
      of "(0, 1000, 0)", folded sb_def] b(2,4-8)
  have 2: "\<exists>path. updatePath (allNodes_table (snd (pop_focal sb))) 6 = Some (Inr path) \<and>
          findPath_loop grid_env 3 (0, 1000, 0) sb = Some (Inr (path, snd (pop_focal sb)))"
    by auto
  from findPath_goal_detection [OF i c(1) [unfolded sc_def] c(3) [unfolded sc_def],
      of "(0, 1000, 0)", folded sc_def] c(2,4)
  have 3: "\<exists>p path. parent (allNodes_table (snd (pop_focal sc)) ! 7) = Some p \<and>
          updatePath (allNodes_table (snd (pop_focal sc))) p = Some (Inr path) \<and>
          findPath_loop unclipped_env 3 (0, 1000, 0) sc = Some (Inr (path, snd (pop_focal sc)))"
    by auto
  from i a b c 1 2 3 show ?thesis
    unfolding Let_def sa_def [symmetric] sb_def [symmetric] sc_def [symmetric] by simp
qed

subsection \<open>The search tree is kept by mode B\<close>

lemma pushNode_lists:
  "set (open_list (pushNode env n s)) = insert n (set (open_list s))"
  "set (focal_list (pushNode env n s)) \<subseteq> insert n (set (focal_list s))"
  by (auto simp: pushNode_def Let_def)

lemma addresses_grow:
  assumes "set xs' \<subseteq> insert e (set xs)" "\<forall>a\<in>set xs. a < n" "e < m" "n \<le> m" "a \<in> set xs'"
  shows "a < (m :: nat)"
proof -
  from assms(1,5) have "a = e \<or> a \<in> set xs"
    by auto
  with assms(2,3,4) show ?thesis
    by auto
qed

lemma generateChild_effect:
  fixes env iv cur loc s
  defines "nxt \<equiv> generateChild_next env iv cur loc s"
  defines "s' \<equiv> generateChild env iv cur loc s"
  obtains (same) "s' = s"
  | (new) "allNodes_find (allNodes_table s) nxt = None"
      "allNodes_table s' = allNodes_table s @ [nxt\<lparr>in_openlist := True\<rparr>]"
      "set (open_list s') \<subseteq> insert (length (allNodes_table s)) (set (open_list s))"
      "set (focal_list s') \<subseteq> insert (length (allNodes_table s)) (set (focal_list s))"
  | (overwrite) e b where "e < length (allNodes_table s)" "eqnode (allNodes_table s ! e) nxt"
      "timestep nxt < timestep (allNodes_table s ! e) \<or>
       (timestep (allNodes_table s ! e) = timestep nxt \<and>
        num_of_conflicts nxt < num_of_conflicts (allNodes_table s ! e))"
      "allNodes_table s' = (allNodes_table s)[e := nxt\<lparr>in_openlist := b\<rparr>]"
      "set (open_list s') \<subseteq> insert e (set (open_list s))"
      "set (focal_list s') \<subseteq> insert e (set (focal_list s))"
proof (cases "max (timestep (allNodes_table s ! cur) + 1) (get_0 iv) +
                max (my_heuristic env loc)
                  (getFVal (allNodes_table s ! cur) -
                   max (timestep (allNodes_table s ! cur) + 1) (get_0 iv)) > length_max env")
  case True
  then have "s' = s"
    by (simp add: s'_def generateChild_def Let_def)
  then show ?thesis by (rule same)
next
  case fits: False
  show ?thesis
  proof (cases "allNodes_find (allNodes_table s) nxt")
    case None
    with fits have s': "s' = pushNode env (length (allNodes_table s))
                              (s\<lparr>allNodes_table := allNodes_table s @ [nxt]\<rparr>)"
      by (simp add: s'_def generateChild_def nxt_def [symmetric] Let_def)
    have "allNodes_table s' = allNodes_table s @ [nxt\<lparr>in_openlist := True\<rparr>]"
      unfolding s' by (simp add: pushNode_table)
    moreover have "set (open_list s') \<subseteq> insert (length (allNodes_table s)) (set (open_list s))"
      "set (focal_list s') \<subseteq> insert (length (allNodes_table s)) (set (focal_list s))"
      unfolding s' using pushNode_lists [of env "length (allNodes_table s)"
          "s\<lparr>allNodes_table := allNodes_table s @ [nxt]\<rparr>"]
      by simp_all
    ultimately show ?thesis
      using None by (intro new) simp_all
  next
    case (Some e)
    then have e: "e < length (allNodes_table s)" "eqnode (allNodes_table s ! e) nxt"
      by (simp_all add: allNodes_find_Some)
    let ?ex = "allNodes_table s ! e"
    show ?thesis
    proof (cases "timestep nxt < timestep ?ex \<or>
                  (timestep ?ex = timestep nxt \<and> num_of_conflicts nxt < num_of_conflicts ?ex)")
      case False
      with Some fits have "s' = s"
        by (auto simp: s'_def generateChild_def nxt_def [symmetric] Let_def)
      then show ?thesis by (rule same)
    next
      case better: True
      show ?thesis
      proof (cases "in_openlist ?ex")
        case False
        with Some better fits have s': "s' = pushNode env e
            (s\<lparr>allNodes_table := (allNodes_table s)[e := copy ?ex nxt]\<rparr>)"
          by (auto simp: s'_def generateChild_def nxt_def [symmetric] Let_def)
        have "allNodes_table s' = (allNodes_table s)[e := nxt\<lparr>in_openlist := True\<rparr>]"
          unfolding s' using e(1) by (simp add: pushNode_table copy_flag)
        moreover have "set (open_list s') \<subseteq> insert e (set (open_list s))"
          "set (focal_list s') \<subseteq> insert e (set (focal_list s))"
          unfolding s' using pushNode_lists [of env e
              "s\<lparr>allNodes_table := (allNodes_table s)[e := copy ?ex nxt]\<rparr>"]
          by simp_all
        ultimately show ?thesis
          using e better by (intro overwrite [of e True]) simp_all
      next
        case True
        define add where "add \<longleftrightarrow>
           real_of_int (max (timestep (allNodes_table s ! cur) + 1) (get_0 iv) +
                max (my_heuristic env loc)
                  (getFVal (allNodes_table s ! cur) -
                   max (timestep (allNodes_table s ! cur) + 1) (get_0 iv))) \<le> focal_bound env s \<and>
           real_of_int (getFVal ?ex) > focal_bound env s"
        from Some better fits True
        have s': "s' = (if add
                        then s\<lparr>allNodes_table := (allNodes_table s)[e := copy ?ex nxt],
                               focal_list := focal_list s @ [e]\<rparr>
                        else s\<lparr>allNodes_table := (allNodes_table s)[e := copy ?ex nxt]\<rparr>)"
          by (auto simp: s'_def generateChild_def nxt_def [symmetric] Let_def add_def)
        from True have c: "copy ?ex nxt = nxt\<lparr>in_openlist := True\<rparr>"
          by (simp add: copy_flag)
        have "allNodes_table s' = (allNodes_table s)[e := nxt\<lparr>in_openlist := True\<rparr>]"
          "set (open_list s') \<subseteq> insert e (set (open_list s))"
          "set (focal_list s') \<subseteq> insert e (set (focal_list s))"
          unfolding s' c by auto
        with e better show ?thesis
          by (intro overwrite [of e True]) simp_all
      qed
    qed
  qed
qed

lemma generateChild_inv:
  assumes inv: "findSuboptimalPath_inv env s" and c: "cur < length (allNodes_table s)"
    and mv: "stay_or_move env (location (allNodes_table s ! cur)) loc"
  shows "findSuboptimalPath_inv env (generateChild env iv cur loc s) \<and>
         allNodes_table (generateChild env iv cur loc s) ! cur = allNodes_table s ! cur \<and>
         length (allNodes_table s) \<le> length (allNodes_table (generateChild env iv cur loc s))"
proof -
  define nxt where "nxt = generateChild_next env iv cur loc s"
  define ns where "ns = allNodes_table s"
  let ?s' = "generateChild env iv cur loc s"
  from inv have tree: "search_tree env ns" and ngl: "\<And>a. a < length ns \<Longrightarrow> \<not> is_goal (ns ! a)"
    and op: "\<forall>a\<in>set (open_list s). a < length ns"
    and foc: "\<forall>a\<in>set (focal_list s). a < length ns"
    by (simp_all add: findSuboptimalPath_inv_def ns_def)
  from c have cl: "cur < length ns"
    by (simp add: ns_def)
  have t0: "0 \<le> timestep (ns ! cur)"
    using tree cl by (rule search_tree_nonneg)
  have nf: "parent nxt = Some cur" "\<not> is_goal nxt" "location nxt = loc"
    "timestep (ns ! cur) < timestep nxt"
    by (simp_all add: nxt_def generateChild_next_fields ns_def)
  have lk: "link env (ns ! cur) nxt"
    using nf mv by (auto simp: link_def stay_or_move_def ns_def)
  show ?thesis
  proof (cases rule: generateChild_effect [of env iv cur loc s])
    case same
    with inv show ?thesis by simp
  next
    case new
    let ?n = "nxt\<lparr>in_openlist := True\<rparr>"
    from new have t': "allNodes_table ?s' = ns @ [?n]"
      and o': "set (open_list ?s') \<subseteq> insert (length ns) (set (open_list s))"
      and f': "set (focal_list ?s') \<subseteq> insert (length ns) (set (focal_list s))"
      by (simp_all add: ns_def nxt_def)
    have "search_tree env (ns @ [?n])"
      using tree cl ngl [OF cl] nf lk t0
      by (intro search_tree_append [where cur = cur]) (auto simp: link_def)
    moreover have "\<not> is_goal ((ns @ [?n]) ! a)" if "a < length (ns @ [?n])" for a
      using that ngl [of a] nf(2) by (cases "a < length ns") (auto simp: nth_append)
    moreover have "a < length (ns @ [?n])" if "a \<in> set (open_list ?s')" for a
      by (rule addresses_grow [OF o' op _ _ that]) simp_all
    moreover have "a < length (ns @ [?n])" if "a \<in> set (focal_list ?s')" for a
      by (rule addresses_grow [OF f' foc _ _ that]) simp_all
    ultimately have "findSuboptimalPath_inv env ?s'"
      unfolding findSuboptimalPath_inv_def t' by blast
    with cl show ?thesis
      by (simp add: t' ns_def [symmetric] nth_append)
  next
    case (overwrite e b)
    let ?n = "nxt\<lparr>in_openlist := b\<rparr>"
    from overwrite have e: "e < length ns" "eqnode (ns ! e) nxt"
      "timestep nxt < timestep (ns ! e) \<or>
       (timestep (ns ! e) = timestep nxt \<and> num_of_conflicts nxt < num_of_conflicts (ns ! e))"
      and t': "allNodes_table ?s' = ns[e := ?n]"
      and o': "set (open_list ?s') \<subseteq> insert e (set (open_list s))"
      and f': "set (focal_list ?s') \<subseteq> insert e (set (focal_list s))"
      by (simp_all add: ns_def nxt_def)
    from e(3) nf(4) t0 have te: "timestep (ns ! cur) < timestep (ns ! e)" "0 < timestep (ns ! e)"
      by auto
    moreover from tree have "timestep (ns ! 0) = 0"
      by (simp add: search_tree_def)
    ultimately have ne: "cur \<noteq> e" "e \<noteq> 0"
      by (metis less_irrefl)+
    have "search_tree env (ns[e := ?n])"
      using tree e cl ngl [OF cl] ne nf lk t0
      by (intro search_tree_overwrite [where cur = cur]) (auto simp: eqnode_def link_def)
    moreover have "\<not> is_goal (ns[e := ?n] ! a)" if "a < length (ns[e := ?n])" for a
      using that ngl [of a] nf(2) by (cases "a = e") simp_all
    moreover have "a < length (ns[e := ?n])" if "a \<in> set (open_list ?s')" for a
      by (rule addresses_grow [OF o' op _ _ that]) (use e(1) in simp_all)
    moreover have "a < length (ns[e := ?n])" if "a \<in> set (focal_list ?s')" for a
      by (rule addresses_grow [OF f' foc _ _ that]) (use e(1) in simp_all)
    ultimately have "findSuboptimalPath_inv env ?s'"
      unfolding findSuboptimalPath_inv_def t' by blast
    with cl ne show ?thesis
      by (simp add: t' ns_def [symmetric])
  qed
qed


lemma findSuboptimalPath_intervals_preserves:
  assumes step: "\<And>iv s. Q s \<Longrightarrow> Q (generateChild env iv cur loc s)"
  shows "Q s \<Longrightarrow> Q (findSuboptimalPath_intervals env cur loc ivs s)"
proof (induction ivs arbitrary: s)
  case Nil
  then show ?case by simp
next
  case (Cons iv ivs)
  from Cons.prems have "Q (generateChild env iv cur loc s)"
    by (rule step)
  then have "Q (findSuboptimalPath_intervals env cur loc ivs (generateChild env iv cur loc s))"
    by (rule Cons.IH)
  then show ?case by simp
qed

lemma findSuboptimalPath_neighbors_preserves:
  assumes step: "\<And>iv loc s. Q s \<Longrightarrow> loc \<in> set nbrs \<Longrightarrow> Q (generateChild env iv cur loc s)"
  shows "Q s \<Longrightarrow> Q (findSuboptimalPath_neighbors env cur nbrs s)"
  using step
proof (induction nbrs arbitrary: s)
  case Nil
  then show ?case by simp
next
  case (Cons loc nbrs)
  let ?s1 = "findSuboptimalPath_intervals env cur loc
      (get_safe_intervals env (location (allNodes_table s ! cur)) loc
         (timestep (allNodes_table s ! cur) + 1) (get_1 (interval (allNodes_table s ! cur)) + 1)) s"
  have 1: "Q ?s1"
  proof (rule findSuboptimalPath_intervals_preserves)
    show "Q s" by fact
  next
    fix iv s' assume "Q s'"
    then show "Q (generateChild env iv cur loc s')"
      by (rule Cons.prems(2)) simp
  qed
  have "Q (findSuboptimalPath_neighbors env cur nbrs ?s1)"
  proof (rule Cons.IH)
    show "Q ?s1" by fact
  next
    fix iv l s' assume "Q s'" "l \<in> set nbrs"
    then show "Q (generateChild env iv cur l s')"
      by (intro Cons.prems(2)) simp_all
  qed
  then show ?case
    by (simp only: findSuboptimalPath_neighbors.simps Let_def)
qed

lemma findSuboptimalPath_expand_preserves:
  assumes step: "\<And>iv loc s'. Q s' \<Longrightarrow> stay_or_move env (location (allNodes_table s ! cur)) loc \<Longrightarrow>
                   Q (generateChild env iv cur loc s')"
    and loc: "\<And>s'. Q s' \<Longrightarrow> location (allNodes_table s' ! cur) = location (allNodes_table s ! cur)"
    and s: "Q s"
  shows "Q (snd (findSuboptimalPath_expand env cur iv s))"
proof -
  let ?s1 = "findSuboptimalPath_neighbors env cur
               (getNeighbors env (location (allNodes_table s ! cur))) s"
  have 1: "Q ?s1"
  proof (rule findSuboptimalPath_neighbors_preserves)
    show "Q s" by fact
  next
    fix iv l s'
    assume a: "Q s'" and b: "l \<in> set (getNeighbors env (location (allNodes_table s ! cur)))"
    from b have "stay_or_move env (location (allNodes_table s ! cur)) l"
      by (simp add: stay_or_move_def)
    with a show "Q (generateChild env iv cur l s')"
      by (rule step)
  qed
  from loc [OF 1] have mv: "stay_or_move env (location (allNodes_table s ! cur))
                          (location (allNodes_table ?s1 ! cur))"
    by (simp add: stay_or_move_def)
  have "Q (generateChild env iv' cur (location (allNodes_table ?s1 ! cur)) ?s1)" for iv'
    using 1 mv by (rule step)
  with 1 have "Q (snd (findSuboptimalPath_wait env cur iv ?s1))"
    unfolding findSuboptimalPath_wait_def Let_def by (simp split: prod.split)
  then show ?thesis
    by (simp add: findSuboptimalPath_expand_def)
qed

lemma findSuboptimalPath_expand_inv:
  assumes inv: "findSuboptimalPath_inv env s" and c: "cur < length (allNodes_table s)"
  shows "findSuboptimalPath_inv env (snd (findSuboptimalPath_expand env cur iv s))"
proof -
  define Q where "Q s' \<longleftrightarrow>
     findSuboptimalPath_inv env s' \<and> allNodes_table s' ! cur = allNodes_table s ! cur \<and>
     length (allNodes_table s) \<le> length (allNodes_table s')" for s'
  have "Q (snd (findSuboptimalPath_expand env cur iv s))"
  proof (rule findSuboptimalPath_expand_preserves [where Q = Q and s = s])
    show "Q s"
      using inv by (simp add: Q_def)
  next
    fix s' assume "Q s'"
    then show "location (allNodes_table s' ! cur) = location (allNodes_table s ! cur)"
      by (simp add: Q_def)
  next
    fix iv' loc s'
    assume s': "Q s'" and mv: "stay_or_move env (location (allNodes_table s ! cur)) loc"
    from s' have i': "findSuboptimalPath_inv env s'"
      and n: "allNodes_table s' ! cur = allNodes_table s ! cur"
      and l: "length (allNodes_table s) \<le> length (allNodes_table s')"
      by (simp_all add: Q_def)
    from c l have c': "cur < length (allNodes_table s')"
      by simp
    from mv n have mv': "stay_or_move env (location (allNodes_table s' ! cur)) loc"
      by simp
    from generateChild_inv [OF i' c' mv', of iv'] n l
    show "Q (generateChild env iv' cur loc s')"
      by (simp add: Q_def)
  qed
  then show ?thesis
    by (simp add: Q_def)
qed

lemma updateFocalList_inv:
  assumes "findSuboptimalPath_inv env s"
  shows "findSuboptimalPath_inv env (updateFocalList env s)"
proof -
  have "allNodes_table (updateFocalList env s) = allNodes_table s"
    "open_list (updateFocalList env s) = open_list s"
    "set (focal_list (updateFocalList env s)) \<subseteq> set (focal_list s) \<union> set (open_list s)"
    by (auto simp: updateFocalList_def Let_def)
  with assms show ?thesis
    unfolding findSuboptimalPath_inv_def by auto
qed

lemma pop_focal_open_inv:
  assumes inv: "findSuboptimalPath_inv env s" and p: "pop_focal_open s = Inr (cur, s1)"
  shows "findSuboptimalPath_inv env s1 \<and> cur < length (allNodes_table s1) \<and>
         \<not> is_goal (allNodes_table s1 ! cur)"
proof -
  from p have ne: "focal_list s \<noteq> []"
    and cur: "cur = heap_top focal_after (allNodes_table s) (focal_list s)"
    and s1: "s1 = s\<lparr>focal_list := remove1 cur (focal_list s),
                    open_list := remove1 cur (open_list s),
                    allNodes_table :=
                      (allNodes_table s)[cur := (allNodes_table s ! cur)\<lparr>in_openlist := False\<rparr>],
                    num_expanded := num_expanded s + 1\<rparr>"
    by (auto simp: pop_focal_open_def Let_def split: if_splits)
  from ne have "cur \<in> set (focal_list s)"
    unfolding cur by (rule heap_top_mem)
  with inv have cl: "cur < length (allNodes_table s)"
    by (simp add: findSuboptimalPath_inv_def)
  have t1: "allNodes_table s1 =
      (allNodes_table s)[cur := (allNodes_table s ! cur)\<lparr>in_openlist := False\<rparr>]"
    and l1: "set (open_list s1) \<subseteq> set (open_list s)" "set (focal_list s1) \<subseteq> set (focal_list s)"
    unfolding s1 using set_remove1_subset [of cur "open_list s"]
      set_remove1_subset [of cur "focal_list s"] by simp_all
  from inv have "search_tree env (allNodes_table s1)"
    unfolding t1 findSuboptimalPath_inv_def by (simp add: search_tree_flag)
  moreover have g1: "\<not> is_goal (allNodes_table s1 ! a)" if "a < length (allNodes_table s1)" for a
    using that inv unfolding t1 findSuboptimalPath_inv_def by (cases "a = cur") simp_all
  moreover from inv l1 have "\<forall>a\<in>set (open_list s1). a < length (allNodes_table s1)"
    "\<forall>a\<in>set (focal_list s1). a < length (allNodes_table s1)"
    unfolding t1 findSuboptimalPath_inv_def by auto
  ultimately have "findSuboptimalPath_inv env s1"
    unfolding findSuboptimalPath_inv_def by blast
  moreover from cl have "cur < length (allNodes_table s1)"
    by (simp add: t1)
  ultimately show ?thesis
    using g1 by blast
qed

lemma findSuboptimalPath_iteration_inv:
  assumes inv: "findSuboptimalPath_inv env s"
    and r: "findSuboptimalPath_iteration env ht iv s = Some (Inr (Continue iv' s'))"
  shows "findSuboptimalPath_inv env s'"
proof (cases "pop_focal_open (updateFocalList env s)")
  case (Inl e)
  with r show ?thesis
    by (simp add: findSuboptimalPath_iteration_def)
next
  case (Inr x)
  obtain cur s1 where x: "x = (cur, s1)"
    by (cases x)
  from pop_focal_open_inv [OF updateFocalList_inv [OF inv] Inr [unfolded x]]
  have 1: "findSuboptimalPath_inv env s1" "cur < length (allNodes_table s1)"
    by simp_all
  let ?c = "allNodes_table s1 ! cur"
  show ?thesis
  proof (cases "location ?c = goal_location env \<and> \<not> wait_at_goal ?c \<and> ht \<le> timestep ?c")
    case True
    with r Inr x show ?thesis
      by (auto simp: findSuboptimalPath_iteration_def break_with_def
               split: option.splits sum.splits)
  next
    case False
    with r Inr x have "s' = snd (findSuboptimalPath_expand env cur iv s1)"
      by (auto simp: findSuboptimalPath_iteration_def split: prod.splits)
    with findSuboptimalPath_expand_inv [OF 1, of iv] show ?thesis
      by simp
  qed
qed

lemma findSuboptimalPath_rounds_inv:
  "findSuboptimalPath_inv env s \<Longrightarrow>
   findSuboptimalPath_inv env (snd (findSuboptimalPath_rounds k env ht iv s))"
proof (induction k arbitrary: iv s)
  case 0
  then show ?case by simp
next
  case (Suc k)
  show ?case
  proof (cases "open_list s = []")
    case True
    with Suc.prems show ?thesis by simp
  next
    case ne: False
    show ?thesis
    proof (cases "\<exists>iv' s'. findSuboptimalPath_iteration env ht iv s = Some (Inr (Continue iv' s'))")
      case True
      then obtain iv' s' where
        r: "findSuboptimalPath_iteration env ht iv s = Some (Inr (Continue iv' s'))"
        by blast
      from findSuboptimalPath_iteration_inv [OF Suc.prems r] have "findSuboptimalPath_inv env s'" .
      then have "findSuboptimalPath_inv env (snd (findSuboptimalPath_rounds k env ht iv' s'))"
        by (rule Suc.IH)
      with ne r show ?thesis by simp
    next
      case False
      with ne have "findSuboptimalPath_rounds (Suc k) env ht iv s = (iv, s)"
        by (auto split: option.splits sum.splits control.splits)
      with Suc.prems show ?thesis by simp
    qed
  qed
qed

lemma findSuboptimalPath_loop_rounds:
  "findSuboptimalPath_loop env ht (fst (findSuboptimalPath_rounds k env ht iv s))
     (snd (findSuboptimalPath_rounds k env ht iv s)) = findSuboptimalPath_loop env ht iv s"
proof (induction k arbitrary: iv s)
  case 0
  then show ?case by simp
next
  case (Suc k)
  show ?case
  proof (cases "open_list s = []")
    case True
    then show ?thesis by simp
  next
    case ne: False
    show ?thesis
    proof (cases "\<exists>iv' s'. findSuboptimalPath_iteration env ht iv s = Some (Inr (Continue iv' s'))")
      case True
      then obtain iv' s' where
        r: "findSuboptimalPath_iteration env ht iv s = Some (Inr (Continue iv' s'))"
        by blast
      with ne have "findSuboptimalPath_loop env ht iv s = findSuboptimalPath_loop env ht iv' s'"
        by (subst findSuboptimalPath_loop.simps) simp
      with ne r Suc.IH [of iv' s'] show ?thesis
        by simp
    next
      case False
      with ne have "findSuboptimalPath_rounds (Suc k) env ht iv s = (iv, s)"
        by (auto split: option.splits sum.splits control.splits)
      then show ?thesis by simp
    qed
  qed
qed

lemma findSuboptimalPath_start_inv:
  assumes "allNodes_table s0 = []" "open_list s0 = []" "focal_list s0 = []"
  shows "findSuboptimalPath_inv env (findSuboptimalPath_start env lowerbound w s0)"
  using assms
  by (simp add: findSuboptimalPath_inv_def findSuboptimalPath_start_def search_tree_def
        new_SIPPNode_def Let_def)


subsection \<open>Termination test of mode B\<close>

text \<open>
  Claim C6, as the code has it. Take a round of the loop of \<open>findSuboptimalPath\<close>, in a
  search started on an idle planner: \<open>s\<close> is the state at the head of the loop after \<open>k\<close>
  rounds, OPEN is not empty, and the round pops the node \<open>cur\<close> from FOCAL, which leaves the
  state \<open>s1\<close>. If \<open>cur\<close> is at the goal location, is not a wait-at-goal node and has a time
  step of at least the holding time, the search ends there: \<open>updatePath\<close> returns a path for
  \<open>cur\<close>, of \<open>timestep cur + 1\<close> entries, from the start location to the goal location; the
  loop, entered in \<open>s\<close> or in the start state, returns that path; and so does
  \<open>findSuboptimalPath\<close>, together with \<open>min_f_val\<close>, when \<open>ht\<close> and \<open>iv0\<close> are the holding time
  and the first safe interval that it computes. If \<open>cur\<close> fails one of the three conditions,
  it is expanded and the loop goes on with the next round. So the search ends at the first
  popped node that meets the three conditions.
\<close>

theorem findSuboptimalPath_loop_goal_test:
  fixes env :: Env and s0 :: SIPP and lowerbound :: int and w :: real and k :: nat
    and ht :: int and iv0 :: Interval
  defines "start \<equiv> findSuboptimalPath_start env lowerbound w s0"
  defines "iv \<equiv> fst (findSuboptimalPath_rounds k env ht iv0 start)"
  defines "s \<equiv> snd (findSuboptimalPath_rounds k env ht iv0 start)"
  assumes idle: "allNodes_table s0 = []" "open_list s0 = []" "focal_list s0 = []"
    and ne: "open_list s \<noteq> []"
    and pop: "findSuboptimalPath_pop env s = Inr (cur, s1)"
  shows "(location (allNodes_table s1 ! cur) = goal_location env \<and>
          \<not> wait_at_goal (allNodes_table s1 ! cur) \<and> ht \<le> timestep (allNodes_table s1 ! cur) \<longrightarrow>
            (\<exists>path. updatePath (allNodes_table s1) cur = Some (Inr path) \<and>
               int (length path) = timestep (allNodes_table s1 ! cur) + 1 \<and>
               path ! 0 = start_location env \<and> last path = goal_location env \<and>
               findSuboptimalPath_loop env ht iv s = Some (Inr (path, s1)) \<and>
               findSuboptimalPath_loop env ht iv0 start = Some (Inr (path, s1)) \<and>
               (ht = getHoldingTime env (goal_location env) (length_min env) \<and>
                iv0 = get_first_safe_interval env (start_location env) \<and> get_0 iv0 \<le> 0 \<longrightarrow>
                  findSuboptimalPath env lowerbound w s0 =
                    Some (Inr ((path, min_f_val s1), releaseNodes s1))))) \<and>
         (\<not> (location (allNodes_table s1 ! cur) = goal_location env \<and>
             \<not> wait_at_goal (allNodes_table s1 ! cur) \<and> ht \<le> timestep (allNodes_table s1 ! cur)) \<longrightarrow>
            findSuboptimalPath_iteration env ht iv s =
              Some (Inr (Continue (fst (findSuboptimalPath_expand env cur iv s1))
                                  (snd (findSuboptimalPath_expand env cur iv s1)))) \<and>
            findSuboptimalPath_loop env ht iv s =
              findSuboptimalPath_loop env ht (fst (findSuboptimalPath_expand env cur iv s1))
                (snd (findSuboptimalPath_expand env cur iv s1)))"
proof -
  let ?c = "allNodes_table s1 ! cur"
  from findSuboptimalPath_start_inv [OF idle] have "findSuboptimalPath_inv env start"
    by (simp add: start_def)
  then have inv: "findSuboptimalPath_inv env s"
    unfolding s_def by (rule findSuboptimalPath_rounds_inv)
  from pop have p: "pop_focal_open (updateFocalList env s) = Inr (cur, s1)"
    by (simp add: findSuboptimalPath_pop_def)
  from pop_focal_open_inv [OF updateFocalList_inv [OF inv] p]
  have inv1: "findSuboptimalPath_inv env s1" and cl: "cur < length (allNodes_table s1)"
    and ng: "\<not> is_goal ?c"
    by simp_all
  from inv1 have tree1: "search_tree env (allNodes_table s1)"
    by (simp add: findSuboptimalPath_inv_def)
  have lr: "findSuboptimalPath_loop env ht iv0 start = findSuboptimalPath_loop env ht iv s"
    unfolding iv_def s_def by (rule findSuboptimalPath_loop_rounds [symmetric])
  have 1: "\<exists>path. updatePath (allNodes_table s1) cur = Some (Inr path) \<and>
               int (length path) = timestep ?c + 1 \<and>
               path ! 0 = start_location env \<and> last path = goal_location env \<and>
               findSuboptimalPath_loop env ht iv s = Some (Inr (path, s1)) \<and>
               findSuboptimalPath_loop env ht iv0 start = Some (Inr (path, s1)) \<and>
               (ht = getHoldingTime env (goal_location env) (length_min env) \<and>
                iv0 = get_first_safe_interval env (start_location env) \<and> get_0 iv0 \<le> 0 \<longrightarrow>
                  findSuboptimalPath env lowerbound w s0 =
                    Some (Inr ((path, min_f_val s1), releaseNodes s1)))"
    if g: "location ?c = goal_location env \<and> \<not> wait_at_goal ?c \<and> ht \<le> timestep ?c"
  proof -
    from updatePath_result [OF tree1 cl ng]
    obtain path where path: "updatePath (allNodes_table s1) cur = Some (Inr path)"
      "length path = nat (timestep ?c) + 1" "path ! 0 = start_location env"
      "last path = location ?c"
      by blast
    from search_tree_nonneg [OF tree1 cl] path(2)
    have len: "int (length path) = timestep ?c + 1"
      by simp
    from p g have "findSuboptimalPath_iteration env ht iv s = break_with (allNodes_table s1) cur s1"
      by (simp add: findSuboptimalPath_iteration_def)
    with ne path(1) have l: "findSuboptimalPath_loop env ht iv s = Some (Inr (path, s1))"
      by (subst findSuboptimalPath_loop.simps) (simp add: break_with_def)
    with lr have l0: "findSuboptimalPath_loop env ht iv0 start = Some (Inr (path, s1))"
      by simp
    have "findSuboptimalPath env lowerbound w s0 =
            Some (Inr ((path, min_f_val s1), releaseNodes s1))"
      if "ht = getHoldingTime env (goal_location env) (length_min env)"
        "iv0 = get_first_safe_interval env (start_location env)" "get_0 iv0 \<le> 0"
      using that l0 by (simp add: findSuboptimalPath_def Let_def start_def)
    with path(1,3,4) len l l0 g show ?thesis
      by auto
  qed
  have 2: "findSuboptimalPath_iteration env ht iv s =
              Some (Inr (Continue (fst (findSuboptimalPath_expand env cur iv s1))
                                  (snd (findSuboptimalPath_expand env cur iv s1)))) \<and>
           findSuboptimalPath_loop env ht iv s =
              findSuboptimalPath_loop env ht (fst (findSuboptimalPath_expand env cur iv s1))
                (snd (findSuboptimalPath_expand env cur iv s1))"
    if g: "\<not> (location ?c = goal_location env \<and> \<not> wait_at_goal ?c \<and> ht \<le> timestep ?c)"
  proof -
    from p g have it: "findSuboptimalPath_iteration env ht iv s =
        Some (Inr (Continue (fst (findSuboptimalPath_expand env cur iv s1))
                            (snd (findSuboptimalPath_expand env cur iv s1))))"
      by (auto simp: findSuboptimalPath_iteration_def split: prod.split)
    with ne have "findSuboptimalPath_loop env ht iv s =
        findSuboptimalPath_loop env ht (fst (findSuboptimalPath_expand env cur iv s1))
          (snd (findSuboptimalPath_expand env cur iv s1))"
      by (subst findSuboptimalPath_loop.simps) simp
    with it show ?thesis by simp
  qed
  from 1 2 show ?thesis
    by blast
qed


theorem findSuboptimalPath_loop_goal_test_witness:
  "allNodes_table idle_SIPP = [] \<and> open_list idle_SIPP = [] \<and> focal_list idle_SIPP = [] \<and>
   getHoldingTime grid_env (goal_location grid_env) (length_min grid_env) = 3 \<and>
   get_first_safe_interval grid_env (start_location grid_env) = (0, 1000, 0) \<and>
   (let s = snd (findSuboptimalPath_rounds 4 grid_env 3 (0, 1000, 0)
                   (findSuboptimalPath_start grid_env 0 2 idle_SIPP));
        cur = fst (projr (findSuboptimalPath_pop grid_env s));
        s1 = snd (projr (findSuboptimalPath_pop grid_env s));
        c = allNodes_table s1 ! cur
    in open_list s \<noteq> [] \<and> \<not> isl (findSuboptimalPath_pop grid_env s) \<and>
       location c = goal_location grid_env \<and> \<not> wait_at_goal c \<and> timestep c = 4 \<and>
       updatePath (allNodes_table s1) cur = Some (Inr [0, 3, 4, 5, 2]) \<and>
       findSuboptimalPath_loop grid_env 3 (0, 1000, 0)
         (findSuboptimalPath_start grid_env 0 2 idle_SIPP) = Some (Inr ([0, 3, 4, 5, 2], s1)) \<and>
       findSuboptimalPath grid_env 0 2 idle_SIPP =
         Some (Inr (([0, 3, 4, 5, 2], min_f_val s1), releaseNodes s1))) \<and>
   (let s = findSuboptimalPath_start grid_env 0 2 idle_SIPP;
        cur = fst (projr (findSuboptimalPath_pop grid_env s));
        s1 = snd (projr (findSuboptimalPath_pop grid_env s));
        c = allNodes_table s1 ! cur
    in open_list s \<noteq> [] \<and> \<not> isl (findSuboptimalPath_pop grid_env s) \<and>
       location c \<noteq> goal_location grid_env \<and>
       findSuboptimalPath_loop grid_env 3 (0, 1000, 0) s =
         findSuboptimalPath_loop grid_env 3
           (fst (findSuboptimalPath_expand grid_env cur (0, 1000, 0) s1))
           (snd (findSuboptimalPath_expand grid_env cur (0, 1000, 0) s1)))"
proof -
  define st where "st = findSuboptimalPath_start grid_env 0 2 idle_SIPP"
  define sa where "sa = snd (findSuboptimalPath_rounds 4 grid_env 3 (0, 1000, 0) st)"
  define pa where "pa = projr (findSuboptimalPath_pop grid_env sa)"
  define pb where "pb = projr (findSuboptimalPath_pop grid_env st)"
  have i: "allNodes_table idle_SIPP = []" "open_list idle_SIPP = []" "focal_list idle_SIPP = []"
    by (simp_all add: idle_SIPP_def)
  have e: "getHoldingTime grid_env (goal_location grid_env) (length_min grid_env) = 3"
    "get_first_safe_interval grid_env (start_location grid_env) = (0, 1000, 0)"
    by (simp_all add: grid_env_def SI_def)
  have a: "open_list sa \<noteq> []" "\<not> isl (findSuboptimalPath_pop grid_env sa)"
    "location (allNodes_table (snd pa) ! fst pa) = goal_location grid_env"
    "\<not> wait_at_goal (allNodes_table (snd pa) ! fst pa)"
    "timestep (allNodes_table (snd pa) ! fst pa) = 4"
    "updatePath (allNodes_table (snd pa)) (fst pa) = Some (Inr [0, 3, 4, 5, 2])"
    unfolding pa_def sa_def st_def by code_simp+
  have b: "open_list st \<noteq> []" "\<not> isl (findSuboptimalPath_pop grid_env st)"
    "location (allNodes_table (snd pb) ! fst pb) \<noteq> goal_location grid_env"
    unfolding pb_def st_def by code_simp+
  from a(2) have popa: "findSuboptimalPath_pop grid_env sa = Inr (fst pa, snd pa)"
    by (simp add: pa_def)
  from b(2) have popb: "findSuboptimalPath_pop grid_env st = Inr (fst pb, snd pb)"
    by (simp add: pb_def)
  have ra: "snd (findSuboptimalPath_rounds 4 grid_env 3 (0, 1000, 0)
                   (findSuboptimalPath_start grid_env 0 2 idle_SIPP)) = sa"
    by (simp add: sa_def st_def)
  have rb: "snd (findSuboptimalPath_rounds 0 grid_env 3 (0, 1000, 0)
                   (findSuboptimalPath_start grid_env 0 2 idle_SIPP)) = st"
    "fst (findSuboptimalPath_rounds 0 grid_env 3 (0, 1000, 0)
            (findSuboptimalPath_start grid_env 0 2 idle_SIPP)) = (0, 1000, 0)"
    by (simp_all add: st_def)
  from findSuboptimalPath_loop_goal_test [OF i a(1) [folded ra] popa [folded ra]] a(3,4,5,6) e
  have 1: "findSuboptimalPath_loop grid_env 3 (0, 1000, 0) st = Some (Inr ([0, 3, 4, 5, 2], snd pa))"
    "findSuboptimalPath grid_env 0 2 idle_SIPP =
       Some (Inr (([0, 3, 4, 5, 2], min_f_val (snd pa)), releaseNodes (snd pa)))"
    by (auto simp: st_def get_0_def)
  from findSuboptimalPath_loop_goal_test [OF i b(1) [folded rb(1)] popb [folded rb(1)]]
    b(3) rb
  have 2: "findSuboptimalPath_loop grid_env 3 (0, 1000, 0) st =
         findSuboptimalPath_loop grid_env 3
           (fst (findSuboptimalPath_expand grid_env (fst pb) (0, 1000, 0) (snd pb)))
           (snd (findSuboptimalPath_expand grid_env (fst pb) (0, 1000, 0) (snd pb)))"
    by simp
  from i e a b 1 2 show ?thesis
    unfolding Let_def st_def [symmetric] sa_def [symmetric] pa_def [symmetric] pb_def [symmetric]
    by simp
qed

text \<open>
  Claim C6 as stated fails. In the corridor (holding time 3), the third round pops node 3:
  it is at the goal location (cell 1) with time step 3, but it is a wait-at-goal node, so
  the search does not end there; the loop goes on and the call returns the empty path.
\<close>

theorem findSuboptimalPath_goal_pop_counterexample:
  "map_sum id fst (findSuboptimalPath_pop corridor_env (snd (findSuboptimalPath_rounds 2 corridor_env 3 (0, 2, 0)
      (findSuboptimalPath_start corridor_env 0 1 idle_SIPP)))) = Inr 3 \<and>
   location (allNodes_table (snd (findSuboptimalPath_rounds 2 corridor_env 3 (0, 2, 0)
      (findSuboptimalPath_start corridor_env 0 1 idle_SIPP))) ! 3) = goal_location corridor_env \<and>
   timestep (allNodes_table (snd (findSuboptimalPath_rounds 2 corridor_env 3 (0, 2, 0)
      (findSuboptimalPath_start corridor_env 0 1 idle_SIPP))) ! 3) = 3 \<and>
   getHoldingTime corridor_env (goal_location corridor_env) (length_min corridor_env) = 3 \<and>
   findSuboptimalPath_iteration corridor_env 3 (3, 5, 1)
     (snd (findSuboptimalPath_rounds 2 corridor_env 3 (0, 2, 0)
        (findSuboptimalPath_start corridor_env 0 1 idle_SIPP))) =
     Some (Inr (Continue (3, 5, 1) (snd (findSuboptimalPath_rounds 3 corridor_env 3 (0, 2, 0)
        (findSuboptimalPath_start corridor_env 0 1 idle_SIPP))))) \<and>
   findSuboptimalPath corridor_env 0 1 idle_SIPP =
     Some (Inr (([], 4), idle_SIPP\<lparr>min_f_val := 4, num_expanded := 4, num_generated := 4\<rparr>))"
  by code_simp

end
